theory Spec2Isabelle
  imports Complex_Main "HOL-Library.Sublist"
begin

section \<open>Data model: cells, frames, exceptions\<close>

text \<open>
  The two source files work on pandas data frames whose cells come from the JSON payload
  of the listing endpoint. A cell is a missing value (NaN, None and NaT alike), a number,
  a text (a Python \<open>str\<close>, kept as the list of its code points, since \<open>strip\<close>, the
  regular expressions and the control-character ranges all speak of code points), a
  timestamp (nanoseconds since the epoch), a boolean, or a nested JSON object (a Python
  \<open>dict\<close>, kept as its items in insertion order).
\<close>

datatype cell =
    NaN
  | Num rat
  | Text "nat list"
  | Stamp int
  | Flag bool
  | is_Obj: Obj "(string \<times> cell) list"

text \<open>
  A frame is column-major, as pandas stores it: the row labels (\<open>df.index\<close>) and the
  columns in order, each a label with one cell per row. Column labels may repeat
  (\<open>pd.concat(axis=1)\<close> does not rename), row labels are natural numbers.
\<close>

record frame =
  index :: "nat list"
  columns :: "(string \<times> cell list) list"

datatype exn =
  KeyError | TypeError | InvalidIndexError | RequestException | ValueError | AttributeError | Unmodelled

text \<open>Sequencing of steps that may raise: the first exception ends the run.\<close>

definition then_do :: "exn + 'a \<Rightarrow> ('a \<Rightarrow> exn + 'b) \<Rightarrow> exn + 'b" where
  "then_do m f = (case m of Inl e \<Rightarrow> Inl e | Inr x \<Rightarrow> f x)"

definition utf :: "string \<Rightarrow> nat list" where
  "utf s = map of_char s"

definition labels :: "frame \<Rightarrow> string list" where
  "labels df = map fst (columns df)"

text \<open>
  \<open>df[c]\<close>: KeyError when no column has the label. When several columns have it pandas
  hands back a frame instead of a series; what the pipeline would do with that frame is
  outside this model, which stops there with \<open>Unmodelled\<close>.
\<close>

definition getitem :: "frame \<Rightarrow> string \<Rightarrow> exn + cell list" where
  "getitem df c =
     (case filter (\<lambda>p. fst p = c) (columns df) of
        [] \<Rightarrow> Inl KeyError
      | [p] \<Rightarrow> Inr (snd p)
      | _ \<Rightarrow> Inl Unmodelled)"

text \<open>
  \<open>df[c] = xs\<close> for a series taken from the same frame: every column labelled \<open>c\<close> is
  overwritten in place, and a new column is appended on the right when there is none.
\<close>

definition setitem :: "frame \<Rightarrow> string \<Rightarrow> cell list \<Rightarrow> frame" where
  "setitem df c xs =
     (if c \<in> set (labels df)
      then df\<lparr>columns := map (\<lambda>p. if fst p = c then (c, xs) else p) (columns df)\<rparr>
      else df\<lparr>columns := columns df @ [(c, xs)]\<rparr>)"

text \<open>The column a reader of the frame finds under a label: the leftmost one.\<close>

definition col :: "frame \<Rightarrow> string \<Rightarrow> cell list option" where
  "col df c = map_of (columns df) c"

section \<open>extract.py: process_data\<close>

subsection \<open>drop_duplicates(subset=..., inplace=True)\<close>

text \<open>
  pandas marks a row as duplicated when the tuple of its cells in the subset columns was
  seen in an earlier row (\<open>keep='first'\<close>), missing values comparing equal, and keeps the
  unmarked rows with their labels and in their order. A subset label that is no column is
  a KeyError; an unhashable cell (a dict) in a subset column is a TypeError.
\<close>

fun duplicated :: "'a list \<Rightarrow> 'a list \<Rightarrow> bool list" where
  "duplicated seen [] = []"
| "duplicated seen (k # ks) = (k \<in> set seen) # duplicated (k # seen) ks"

definition boolean_mask :: "bool list \<Rightarrow> 'a list \<Rightarrow> 'a list" where
  "boolean_mask m xs = map snd (filter fst (zip m xs))"

fun getitems :: "frame \<Rightarrow> string list \<Rightarrow> exn + cell list list" where
  "getitems df [] = Inr []"
| "getitems df (c # cs) =
     then_do (getitem df c) (\<lambda>xs. then_do (getitems df cs) (\<lambda>xss. Inr (xs # xss)))"

definition row_keys :: "nat \<Rightarrow> cell list list \<Rightarrow> cell list list" where
  "row_keys n cols = map (\<lambda>i. map (\<lambda>xs. xs ! i) cols) [0..<n]"

definition keep_rows :: "bool list \<Rightarrow> frame \<Rightarrow> frame" where
  "keep_rows m df =
     \<lparr>index = boolean_mask m (index df),
      columns = map (\<lambda>p. (fst p, boolean_mask m (snd p))) (columns df)\<rparr>"

definition drop_duplicates :: "string list \<Rightarrow> frame \<Rightarrow> exn + frame" where
  "drop_duplicates by_cols df =
     then_do (getitems df by_cols) (\<lambda>cols.
       if list_ex (list_ex is_Obj) cols then Inl TypeError
       else Inr (keep_rows (map Not (duplicated [] (row_keys (length (index df)) cols))) df))"

subsection \<open>pd.to_datetime(..., errors='coerce')\<close>

text \<open>
  The parser of pandas is a parameter: \<open>conv xs x\<close> is the timestamp pandas reads from
  the cell \<open>x\<close> of the column \<open>xs\<close> (the format it guesses depends on the column), and
  \<open>None\<close> where it cannot read one. With \<open>errors='coerce'\<close> such a cell becomes NaT.
\<close>

definition to_datetime :: "(cell list \<Rightarrow> cell \<Rightarrow> int option) \<Rightarrow> cell list \<Rightarrow> cell list" where
  "to_datetime conv xs = map (\<lambda>x. case conv xs x of Some t \<Rightarrow> Stamp t | None \<Rightarrow> NaN) xs"

definition coerce_date :: "(cell list \<Rightarrow> cell \<Rightarrow> int option) \<Rightarrow> string \<Rightarrow> frame \<Rightarrow> exn + frame" where
  "coerce_date conv c df = then_do (getitem df c) (\<lambda>xs. Inr (setitem df c (to_datetime conv xs)))"

definition date_columns :: "string list" where
  "date_columns = [''dataAberturaProposta'', ''dataEncerramentoProposta'', ''dataInclusao'',
     ''dataPublicacaoPncp'', ''dataAtualizacao'', ''dataAtualizacaoGlobal'']"

fun coerce_dates :: "(cell list \<Rightarrow> cell \<Rightarrow> int option) \<Rightarrow> string list \<Rightarrow> frame \<Rightarrow> exn + frame" where
  "coerce_dates conv [] df = Inr df"
| "coerce_dates conv (c # cs) df = then_do (coerce_date conv c df) (coerce_dates conv cs)"

subsection \<open>pd.json_normalize on a column of objects\<close>

text \<open>
  \<open>dict_set\<close> is \<open>d[k] = v\<close> on an insertion-ordered dict. \<open>normalise_json\<close> follows
  pandas' \<open>_normalise_json\<close>: nested objects are unfolded into dotted keys, written into
  the accumulating dict. \<open>normalise_json_ordered\<close> puts the non-object items first. A
  cell that is no object (a missing value among them) gives the empty record.
\<close>

fun dict_set :: "(string \<times> 'v) list \<Rightarrow> string \<Rightarrow> 'v \<Rightarrow> (string \<times> 'v) list" where
  "dict_set [] k v = [(k, v)]"
| "dict_set (p # d) k v = (if fst p = k then (k, v) # d else p # dict_set d k v)"

definition dict_update :: "(string \<times> 'v) list \<Rightarrow> (string \<times> 'v) list \<Rightarrow> (string \<times> 'v) list" where
  "dict_update d items = foldl (\<lambda>acc p. dict_set acc (fst p) (snd p)) d items"

definition new_key :: "string \<Rightarrow> string \<Rightarrow> string" where
  "new_key key_string k = (if key_string = [] then k else key_string @ ''.'' @ k)"

fun normalise_json :: "string \<Rightarrow> cell \<Rightarrow> (string \<times> cell) list \<Rightarrow> (string \<times> cell) list"
  and normalise_items :: "string \<Rightarrow> (string \<times> cell) list \<Rightarrow> (string \<times> cell) list \<Rightarrow> (string \<times> cell) list"
where
  "normalise_json key_string (Obj items) acc = normalise_items key_string items acc"
| "normalise_json key_string NaN acc = dict_set acc key_string NaN"
| "normalise_json key_string (Num q) acc = dict_set acc key_string (Num q)"
| "normalise_json key_string (Text s) acc = dict_set acc key_string (Text s)"
| "normalise_json key_string (Stamp t) acc = dict_set acc key_string (Stamp t)"
| "normalise_json key_string (Flag b) acc = dict_set acc key_string (Flag b)"
| "normalise_items key_string [] acc = acc"
| "normalise_items key_string (p # items) acc =
     normalise_items key_string items (normalise_json (new_key key_string (fst p)) (snd p) acc)"

definition normalise_json_ordered :: "(string \<times> cell) list \<Rightarrow> (string \<times> cell) list" where
  "normalise_json_ordered items =
     dict_update (dict_update [] (filter (\<lambda>p. \<not> is_Obj (snd p)) items))
       (normalise_json [] (Obj (filter (\<lambda>p. is_Obj (snd p)) items)) [])"

definition simple_json_normalize :: "cell \<Rightarrow> (string \<times> cell) list" where
  "simple_json_normalize x = (case x of Obj items \<Rightarrow> normalise_json_ordered items | _ \<Rightarrow> [])"

fun first_seen :: "'a list \<Rightarrow> 'a list \<Rightarrow> 'a list" where
  "first_seen seen [] = []"
| "first_seen seen (k # ks) =
     (if k \<in> set seen then first_seen seen ks else k # first_seen (k # seen) ks)"

text \<open>
  \<open>DataFrame(records)\<close>: a fresh RangeIndex, one column per key in order of first
  appearance, NaN where a record lacks the key. \<open>json_normalize\<close> of a series builds its
  frame from the list of the series' values, so the frame has the row labels 0, 1, 2, ...
  and not those of the series. (This is pandas before 3.0, which changed it; \<open>app.py\<close>
  calls \<open>DataFrame.applymap\<close>, deprecated since pandas 2.1, so the code is written
  against pandas 2 or older.)
\<close>

definition DataFrame :: "(string \<times> cell) list list \<Rightarrow> frame" where
  "DataFrame records =
     \<lparr>index = [0..<length records],
      columns = map (\<lambda>k. (k, map (\<lambda>r. case map_of r k of Some v \<Rightarrow> v | None \<Rightarrow> NaN) records))
                  (first_seen [] (concat (map (map fst) records)))\<rparr>"

definition json_normalize :: "cell list \<Rightarrow> frame" where
  "json_normalize xs = DataFrame (map simple_json_normalize xs)"

subsection \<open>df.drop(label, axis=1) and pd.concat([a, b], axis=1)\<close>

definition drop_column :: "frame \<Rightarrow> string \<Rightarrow> exn + frame" where
  "drop_column df c =
     (if c \<in> set (labels df) then Inr (df\<lparr>columns := filter (\<lambda>p. fst p \<noteq> c) (columns df)\<rparr>)
      else Inl KeyError)"

text \<open>
  \<open>concat\<close> along the columns aligns the two frames on their row labels (an outer join):
  the labels of the left frame, then those of the right frame that the left one lacks;
  every column is re-indexed to them, NaN where its frame has no such row. Equal indexes
  need no alignment; re-indexing a frame with a repeated row label raises.
\<close>

definition reindex :: "nat list \<Rightarrow> nat list \<Rightarrow> cell list \<Rightarrow> cell list" where
  "reindex old new xs = map (\<lambda>l. case map_of (zip old xs) l of Some x \<Rightarrow> x | None \<Rightarrow> NaN) new"

definition union_index :: "nat list \<Rightarrow> nat list \<Rightarrow> nat list" where
  "union_index a b = a @ filter (\<lambda>l. l \<notin> set a) b"

definition concat_columns :: "frame \<Rightarrow> frame \<Rightarrow> exn + frame" where
  "concat_columns a b =
     (if index a = index b then Inr \<lparr>index = index a, columns = columns a @ columns b\<rparr>
      else if \<not> distinct (index a) \<or> \<not> distinct (index b) then Inl InvalidIndexError
      else Inr \<lparr>index = union_index (index a) (index b),
                columns =
                  map (\<lambda>p. (fst p, reindex (index a) (union_index (index a) (index b)) (snd p))) (columns a) @
                  map (\<lambda>p. (fst p, reindex (index b) (union_index (index a) (index b)) (snd p))) (columns b)\<rparr>)"

text \<open>Lines 135-136 and 147-148: unpack one column of objects and put its fields on the right.\<close>

definition flatten :: "string \<Rightarrow> frame \<Rightarrow> exn + frame" where
  "flatten c df =
     then_do (getitem df c) (\<lambda>xs.
     then_do (drop_column df c) (\<lambda>d.
       concat_columns d (json_normalize xs)))"

subsection \<open>The poder label\<close>

definition poder_map :: "(nat list \<times> nat list) list" where
  "poder_map = [(utf ''E'', utf ''Estadual''), (utf ''M'', utf ''Municipal''), (utf ''N'', utf ''Nacional'')]"

text \<open>\<open>Series.map(dict)\<close>: a value that is no key gives NaN; an unhashable value raises.\<close>

definition map_dict :: "(nat list \<times> nat list) list \<Rightarrow> cell \<Rightarrow> cell" where
  "map_dict d x = (case x of Text s \<Rightarrow> (case map_of d s of Some v \<Rightarrow> Text v | None \<Rightarrow> NaN) | _ \<Rightarrow> NaN)"

definition add_poder :: "frame \<Rightarrow> exn + frame" where
  "add_poder df =
     then_do (getitem df ''poderId'') (\<lambda>xs.
       if list_ex is_Obj xs then Inl TypeError
       else Inr (setitem df ''poder'' (map (map_dict poder_map) xs)))"

subsection \<open>process_data\<close>

definition copy_valor :: "frame \<Rightarrow> exn + frame" where
  "copy_valor df = then_do (getitem df ''valorTotalEstimado'') (\<lambda>xs. Inr (setitem df ''valor'' xs))"

definition process_data :: "(cell list \<Rightarrow> cell \<Rightarrow> int option) \<Rightarrow> frame \<Rightarrow> exn + frame" where
  "process_data conv df =
     then_do (drop_duplicates [''valorTotalHomologado'', ''objetoCompra''] df) (\<lambda>df.
     then_do (coerce_dates conv date_columns df) (\<lambda>df.
     then_do (copy_valor df) (\<lambda>df.
     then_do (flatten ''orgaoEntidade'' df) (\<lambda>df.
     then_do (add_poder df) (\<lambda>df.
       flatten ''unidadeOrgao'' df)))))"

text \<open>
  How \<open>pd.concat(axis=1)\<close> carries a column of its left frame into the result.
\<close>

definition align :: "frame \<Rightarrow> frame \<Rightarrow> cell list \<Rightarrow> cell list" where
  "align a b = (if index a = index b then id else reindex (index a) (union_index (index a) (index b)))"

section \<open>extract.py: the paginated fetch\<close>

text \<open>
  The parameter bag is a Python dict held by reference: \<open>params.copy()\<close> makes a new
  object, and the two assignments write into that object. The store is the list of the
  dicts allocated so far, an address is a position in it.
\<close>

datatype pval = PInt int | PStr string

type_synonym pdict = "(string \<times> pval) list"
type_synonym store = "pdict list"

definition dict_copy :: "store \<Rightarrow> nat \<Rightarrow> nat \<times> store" where
  "dict_copy h a = (length h, h @ [h ! a])"

definition dict_store :: "store \<Rightarrow> nat \<Rightarrow> string \<Rightarrow> pval \<Rightarrow> store" where
  "dict_store h a k v = h[a := dict_set (h ! a) k v]"

definition PAGE_SIZE :: int where
  "PAGE_SIZE = 50"

text \<open>
  What the HTTP layer gives for one request: an exception (\<open>requests.get\<close> on a timeout
  or a DNS failure, \<open>raise_for_status\<close> on a 4xx or 5xx status, \<open>response.json()\<close> on a
  body that is no JSON), or the decoded JSON object, of which the code reads three keys;
  \<open>None\<close> stands for a key the object lacks.
\<close>

record payload =
  data :: "(string \<times> cell) list list option"
  paginasRestantes :: "int option"
  totalPaginas :: "int option"

datatype reply = Fails exn | Answers payload

text \<open>The body of the \<open>try\<close> of \<open>_fetch_page\<close>; a missing key under \<open>data[...]\<close> raises KeyError.\<close>

definition fetch_page_body :: "reply \<Rightarrow> exn + (frame \<times> int \<times> int) option" where
  "fetch_page_body r =
     (case r of
        Fails e \<Rightarrow> Inl e
      | Answers p \<Rightarrow>
          (case data p of
             None \<Rightarrow> Inr None
           | Some records \<Rightarrow>
               (case paginasRestantes p of
                  None \<Rightarrow> Inl KeyError
                | Some rest \<Rightarrow>
                    (case totalPaginas p of
                       None \<Rightarrow> Inl KeyError
                     | Some pages \<Rightarrow> Inr (Some (DataFrame records, rest, pages))))))"

text \<open>\<open>_fetch_page\<close>: both handlers print and return None.\<close>

definition fetch_page :: "reply \<Rightarrow> (frame \<times> int \<times> int) option" where
  "fetch_page r = (case fetch_page_body r of Inl e \<Rightarrow> None | Inr v \<Rightarrow> v)"

text \<open>
  The body of the \<open>try\<close> of the loop up to the append: unpacking the None of a failed
  page into three names raises TypeError (so the test \<open>df is None\<close> is never reached with
  None). The progress bar and the prints act on neither the requests nor the result and
  are left out.
\<close>

definition unpack_page :: "reply \<Rightarrow> exn + frame \<times> int \<times> int" where
  "unpack_page r = (case fetch_page r of None \<Rightarrow> Inl TypeError | Some t \<Rightarrow> Inr t)"

text \<open>\<open>pd.concat(frames, ignore_index=True)\<close>: rows appended, columns by first appearance.\<close>

definition concat_rows :: "frame list \<Rightarrow> frame" where
  "concat_rows fs =
     \<lparr>index = [0..<sum_list (map (\<lambda>f. length (index f)) fs)],
      columns =
        map (\<lambda>k. (k, concat (map (\<lambda>f. case col f k of Some xs \<Rightarrow> xs
                                          | None \<Rightarrow> replicate (length (index f)) NaN) fs)))
          (first_seen [] (concat (map labels fs)))\<rparr>"

datatype 'a outcome = Running | Returned 'a

text \<open>
  The \<open>while True\<close> loop, run against the replies the HTTP layer gives to its successive
  requests. It yields the store, the query dicts sent (one per request, in order) and
  what the function returned; \<open>Running\<close> when the replies are used up and the loop is
  about to send one more request. When the loop is left, \<open>all_data\<close> holds the last page
  at least, so the branch that returns an empty frame is never taken.
\<close>

fun fetch_loop :: "nat \<Rightarrow> store \<Rightarrow> int \<Rightarrow> frame list \<Rightarrow> reply list
    \<Rightarrow> store \<times> pdict list \<times> frame option outcome" where
  "fetch_loop params h page all_data [] = (h, [], Running)"
| "fetch_loop params h page all_data (r # rs) =
     (let (query_params, h1) = dict_copy h params;
          h2 = dict_store h1 query_params ''pagina'' (PInt page);
          h3 = dict_store h2 query_params ''tamanhoPagina'' (PInt PAGE_SIZE);
          sent = h3 ! query_params
      in case unpack_page r of
           Inl e \<Rightarrow> (h3, [sent], Returned None)
         | Inr (df, rest, pages) \<Rightarrow>
             if rest = 0 then (h3, [sent], Returned (Some (concat_rows (all_data @ [df]))))
             else (case fetch_loop params h3 (page + 1) (all_data @ [df]) rs of
                     (h', qs, res) \<Rightarrow> (h', sent # qs, res)))"

definition query_all_contracts :: "nat \<Rightarrow> store \<Rightarrow> reply list \<Rightarrow> store \<times> pdict list \<times> frame option outcome" where
  "query_all_contracts params h replies = fetch_loop params h 1 [] replies"

text \<open>The frame of a reply that is a page, and the number of remaining pages it reports.\<close>

definition page_of :: "reply \<Rightarrow> frame" where
  "page_of r = (case fetch_page r of Some (df, rest, pages) \<Rightarrow> df | None \<Rightarrow> DataFrame [])"

definition remaining :: "reply \<Rightarrow> int option" where
  "remaining r = map_option (\<lambda>t. fst (snd t)) (fetch_page r)"

section \<open>app.py: keyword filter, column projection, export\<close>

subsection \<open>parse_keywords\<close>

text \<open>The code points for which \<open>str.isspace\<close> holds; \<open>str.strip()\<close> removes them at both ends.\<close>

definition is_space :: "nat \<Rightarrow> bool" where
  "is_space c \<longleftrightarrow>
     (9 \<le> c \<and> c \<le> 13) \<or> (28 \<le> c \<and> c \<le> 32) \<or> c = 133 \<or> c = 160 \<or> c = 5760 \<or>
     (8192 \<le> c \<and> c \<le> 8202) \<or> c = 8232 \<or> c = 8233 \<or> c = 8239 \<or> c = 8287 \<or> c = 12288"

definition strip :: "nat list \<Rightarrow> nat list" where
  "strip s = rev (dropWhile is_space (rev (dropWhile is_space s)))"

fun split :: "nat \<Rightarrow> nat list \<Rightarrow> nat list list" where
  "split sep [] = [[]]"
| "split sep (c # cs) =
     (if c = sep then [] # split sep cs
      else (case split sep cs of [] \<Rightarrow> [[c]] | t # ts \<Rightarrow> (c # t) # ts))"

definition semicolon :: nat where
  "semicolon = 59"

definition parse_keywords :: "nat list \<Rightarrow> nat list list" where
  "parse_keywords text_in =
     (if text_in = [] then []
      else map strip (filter (\<lambda>token. strip token \<noteq> []) (split semicolon text_in)))"

subsection \<open>re.escape, the compiled pattern, Series.str.contains\<close>

text \<open>
  \<open>re.escape\<close> (Python 3.7 and later) puts a backslash before each of
  \<open>()[]{}?*+-|^$\.&~#\<close>, the space, and tab, newline, return, vertical tab, form feed.
\<close>

definition special_chars :: "nat list" where
  "special_chars = [40, 41, 91, 93, 123, 125, 63, 42, 43, 45, 124, 94, 36, 92, 46, 38, 126, 35,
     32, 9, 10, 13, 11, 12]"

definition re_escape :: "nat list \<Rightarrow> nat list" where
  "re_escape s = concat (map (\<lambda>c. if c \<in> set special_chars then [92, c] else [c]) s)"

fun join :: "nat list \<Rightarrow> nat list list \<Rightarrow> nat list" where
  "join sep [] = []"
| "join sep [t] = t"
| "join sep (t # u # ts) = t @ sep @ join sep (u # ts)"

text \<open>
  The fragment of Python's pattern language the filter can produce: branches separated
  by \<open>|\<close>, each a run of literals, a literal being a character that is not special to
  the parser (\<open>.\[{()*+?^$|\<close>) or a backslash followed by a character that is no ASCII
  letter or digit. \<open>re_compile\<close> reads a pattern of this fragment into its branches and
  gives \<open>None\<close> for every other pattern (an operator, a class escape such as \<open>\d\<close>, a
  trailing backslash).
\<close>

definition parser_special :: "nat list" where
  "parser_special = [46, 91, 123, 40, 41, 42, 43, 63, 94, 36]"

definition ascii_alnum :: "nat \<Rightarrow> bool" where
  "ascii_alnum c \<longleftrightarrow> (48 \<le> c \<and> c \<le> 57) \<or> (65 \<le> c \<and> c \<le> 90) \<or> (97 \<le> c \<and> c \<le> 122)"

fun re_branches :: "nat list \<Rightarrow> nat list \<Rightarrow> nat list list option" where
  "re_branches [] cur = Some [cur]"
| "re_branches [c] cur =
     (if c = 92 then None
      else if c = 124 then Some [cur, []]
      else if c \<in> set parser_special then None
      else Some [cur @ [c]])"
| "re_branches (c # d # ds) cur =
     (if c = 92 then (if ascii_alnum d then None else re_branches ds (cur @ [d]))
      else if c = 124 then map_option (Cons cur) (re_branches (d # ds) [])
      else if c \<in> set parser_special then None
      else re_branches (d # ds) (cur @ [c]))"

definition re_compile :: "nat list \<Rightarrow> nat list list option" where
  "re_compile pat = re_branches pat []"

text \<open>
  \<open>pattern.search(s)\<close>: some branch matches at some position of the subject. \<open>eq c d\<close>
  says that the pattern character \<open>c\<close> matches the subject character \<open>d\<close>.
\<close>

fun match_here :: "(nat \<Rightarrow> nat \<Rightarrow> bool) \<Rightarrow> nat list \<Rightarrow> nat list \<Rightarrow> bool" where
  "match_here eq [] s = True"
| "match_here eq (c # cs) [] = False"
| "match_here eq (c # cs) (d # ds) = (eq c d \<and> match_here eq cs ds)"

fun re_search :: "(nat \<Rightarrow> nat \<Rightarrow> bool) \<Rightarrow> nat list list \<Rightarrow> nat list \<Rightarrow> bool" where
  "re_search eq branches [] = list_ex (\<lambda>b. match_here eq b []) branches"
| "re_search eq branches (d # ds) =
     (list_ex (\<lambda>b. match_here eq b (d # ds)) branches \<or> re_search eq branches ds)"

text \<open>
  Under \<open>re.IGNORECASE\<close> a literal matches a character of the same case class. Among the
  ASCII characters the classes are the letters with their other case: \<open>casefold\<close> takes
  an upper-case letter A-Z to its lower-case letter and leaves every other ASCII
  character alone. Which characters beyond ASCII the flag identifies, with each other or
  with an ASCII letter (the Kelvin sign with k), is Python's Unicode table: the parameter
  \<open>u\<close> gives each of them the representative of its class.
\<close>

definition ascii_lower :: "nat \<Rightarrow> nat" where
  "ascii_lower c = (if 65 \<le> c \<and> c \<le> 90 then c + 32 else c)"

definition casefold :: "(nat \<Rightarrow> nat) \<Rightarrow> nat \<Rightarrow> nat" where
  "casefold u c = (if c < 128 then ascii_lower c else u c)"

definition ignorecase :: "(nat \<Rightarrow> nat) \<Rightarrow> nat \<Rightarrow> nat \<Rightarrow> bool" where
  "ignorecase u c d \<longleftrightarrow> casefold u c = casefold u d"

text \<open>
  \<open>Series.str\<close> first checks what the column holds (\<open>infer_dtype\<close>, missing values
  skipped): a column whose values are all numbers, all booleans or all timestamps is
  refused with AttributeError; a column of texts, a mixture, and a column with no value at
  all (the columns of these frames are of object dtype, JSON null being kept as None) are
  accepted.
\<close>

definition is_number :: "cell \<Rightarrow> bool" where
  "is_number x = (case x of Num q \<Rightarrow> True | _ \<Rightarrow> False)"

definition is_boolean :: "cell \<Rightarrow> bool" where
  "is_boolean x = (case x of Flag b \<Rightarrow> True | _ \<Rightarrow> False)"

definition is_timestamp :: "cell \<Rightarrow> bool" where
  "is_timestamp x = (case x of Stamp t \<Rightarrow> True | _ \<Rightarrow> False)"

definition str_accessor :: "cell list \<Rightarrow> exn + cell list" where
  "str_accessor xs =
     (let values = filter (\<lambda>x. x \<noteq> NaN) xs in
      if values \<noteq> [] \<and>
         (list_all is_number values \<or> list_all is_boolean values \<or> list_all is_timestamp values)
      then Inl AttributeError
      else Inr xs)"

text \<open>
  \<open>.str.contains(pat, case=False, na=False, regex=True)\<close>: the pattern is compiled with
  \<open>re.IGNORECASE\<close>; a text cell is searched, every other cell (missing or not a \<open>str\<close>)
  gives the \<open>na\<close> value False.
\<close>

definition str_contains :: "(nat \<Rightarrow> nat) \<Rightarrow> nat list \<Rightarrow> cell list \<Rightarrow> exn + bool list" where
  "str_contains u pat xs =
     then_do (str_accessor xs) (\<lambda>xs.
       case re_compile pat of
         None \<Rightarrow> Inl Unmodelled
       | Some branches \<Rightarrow>
           Inr (map (\<lambda>x. case x of Text s \<Rightarrow> re_search (ignorecase u) branches s | _ \<Rightarrow> False) xs))"

text \<open>Lines 175-179 of \<open>main_interface\<close>; \<open>df[mask]\<close> keeps the rows whose mask is True.\<close>

definition keyword_filter :: "(nat \<Rightarrow> nat) \<Rightarrow> nat list \<Rightarrow> frame \<Rightarrow> exn + frame" where
  "keyword_filter u keyword df =
     (let keywords = parse_keywords keyword in
      if keywords = [] then Inr df
      else
        let pattern = join [124] (map re_escape keywords) in
        then_do (getitem df ''objetoCompra'') (\<lambda>xs.
        then_do (str_contains u pattern xs) (\<lambda>mask.
          Inr (keep_rows mask df))))"

subsection \<open>Column projection (lines 181-188 of main_interface)\<close>

text \<open>\<open>df[names]\<close> for names that are all labels of the frame.\<close>

definition select_columns :: "string list \<Rightarrow> frame \<Rightarrow> frame" where
  "select_columns names df =
     df\<lparr>columns := concat (map (\<lambda>c. filter (\<lambda>p. fst p = c) (columns df)) names)\<rparr>"

definition display_columns :: "string list \<Rightarrow> frame \<Rightarrow> string list" where
  "display_columns selected df =
     (let chosen = filter (\<lambda>c. c \<in> set (labels df)) selected
      in if chosen = [] then labels df else chosen)"

definition project :: "string list \<Rightarrow> frame \<Rightarrow> frame" where
  "project selected df = select_columns (display_columns selected df) df"

subsection \<open>to_excel\<close>

text \<open>The character class of \<open>illegal_char_re\<close>, as the ranges the source writes.\<close>

definition illegal_char_re :: "(nat \<times> nat) list" where
  "illegal_char_re = [(0, 8), (11, 11), (12, 12), (14, 31)]"

definition in_class :: "(nat \<times> nat) list \<Rightarrow> nat \<Rightarrow> bool" where
  "in_class ranges c = list_ex (\<lambda>r. fst r \<le> c \<and> c \<le> snd r) ranges"

text \<open>\<open>pattern.sub("", s)\<close> for a one-character class: every match is deleted.\<close>

fun re_sub_empty :: "(nat \<times> nat) list \<Rightarrow> nat list \<Rightarrow> nat list" where
  "re_sub_empty ranges [] = []"
| "re_sub_empty ranges (c # cs) =
     (if in_class ranges c then re_sub_empty ranges cs else c # re_sub_empty ranges cs)"

definition clean_value :: "cell \<Rightarrow> cell" where
  "clean_value x = (case x of Text s \<Rightarrow> Text (re_sub_empty illegal_char_re s) | _ \<Rightarrow> x)"

definition applymap :: "(cell \<Rightarrow> cell) \<Rightarrow> frame \<Rightarrow> frame" where
  "applymap f df = df\<lparr>columns := map (\<lambda>p. (fst p, map f (snd p))) (columns df)\<rparr>"

text \<open>
  What \<open>DataFrame.to_excel(writer, index=False, sheet_name=...)\<close> puts into the workbook:
  one sheet with the given name, the column labels as header row, the row labels as a
  first column only when \<open>index\<close> is set, and the cells row by row. The bytes openpyxl
  makes of the workbook are not modelled.
\<close>

record sheet =
  sheet_name :: string
  header :: "string list"
  index_column :: "nat list option"
  cell_rows :: "cell list list"

definition write_sheet :: "bool \<Rightarrow> string \<Rightarrow> frame \<Rightarrow> sheet" where
  "write_sheet with_index name df =
     \<lparr>sheet_name = name,
      header = labels df,
      index_column = (if with_index then Some (index df) else None),
      cell_rows = map (\<lambda>i. map (\<lambda>p. snd p ! i) (columns df)) [0..<length (index df)]\<rparr>"

definition to_excel :: "frame \<Rightarrow> sheet list" where
  "to_excel df = (let df_clean = applymap clean_value df in [write_sheet False ''Biddings'' df_clean])"

section \<open>Notions used in the statements, and sample data\<close>

text \<open>Every column has one cell per row label.\<close>

definition well_formed :: "frame \<Rightarrow> bool" where
  "well_formed df \<longleftrightarrow> list_all (\<lambda>p. length (snd p) = length (index df)) (columns df)"

text \<open>The pairs of cells the rows have under two labels, row by row.\<close>

definition pairs :: "string \<Rightarrow> string \<Rightarrow> frame \<Rightarrow> (cell \<times> cell) list" where
  "pairs a b df = (case (col df a, col df b) of (Some xs, Some ys) \<Rightarrow> zip xs ys | _ \<Rightarrow> [])"

definition first_of_its_pair :: "(cell \<times> cell) list \<Rightarrow> nat \<Rightarrow> bool" where
  "first_of_its_pair ps i \<longleftrightarrow> list_all (\<lambda>j. ps ! j \<noteq> ps ! i) [0..<i]"

text \<open>
  The keyword filter in the words of the specification. The tokens are the pieces of the
  input between semicolons, trimmed, the empty ones discarded. A text contains a token
  without regard to case when the token, case disregarded, is a stretch of the text, case
  disregarded. A row matches when its description is a text that contains some token; a
  missing description is no text. The filtered table has the rows that match, in their
  order, each with its label and its cells; with no token it is the table itself.
\<close>

definition spec_tokens :: "nat list \<Rightarrow> nat list list" where
  "spec_tokens text_in = filter (\<lambda>t. t \<noteq> []) (map strip (split semicolon text_in))"

definition contains_ignoring_case :: "(nat \<Rightarrow> nat) \<Rightarrow> nat list \<Rightarrow> nat list \<Rightarrow> bool" where
  "contains_ignoring_case u token s \<longleftrightarrow> sublist (map (casefold u) token) (map (casefold u) s)"

definition row_matches :: "(nat \<Rightarrow> nat) \<Rightarrow> nat list list \<Rightarrow> cell \<Rightarrow> bool" where
  "row_matches u tokens x \<longleftrightarrow>
     (\<exists>s. x = Text s \<and> (\<exists>token \<in> set tokens. contains_ignoring_case u token s))"

definition descriptions :: "frame \<Rightarrow> cell list" where
  "descriptions df = (case col df ''objetoCompra'' of Some xs \<Rightarrow> xs | None \<Rightarrow> [])"

definition rows_at :: "nat list \<Rightarrow> frame \<Rightarrow> frame" where
  "rows_at positions df =
     \<lparr>index = map (\<lambda>i. index df ! i) positions,
      columns = map (\<lambda>p. (fst p, map (\<lambda>i. snd p ! i) positions)) (columns df)\<rparr>"

definition keyword_filter_spec :: "(nat \<Rightarrow> nat) \<Rightarrow> nat list \<Rightarrow> frame \<Rightarrow> frame" where
  "keyword_filter_spec u keyword df =
     (if spec_tokens keyword = [] then df
      else rows_at
             (filter (\<lambda>i. row_matches u (spec_tokens keyword) (descriptions df ! i))
                [0..<length (index df)])
             df)"

text \<open>
  The tables the filter is specified for: one description column, whose cells are texts
  or missing.
\<close>

definition has_descriptions :: "frame \<Rightarrow> bool" where
  "has_descriptions df \<longleftrightarrow>
     count_list (labels df) ''objetoCompra'' = 1 \<and>
     list_all (\<lambda>x. case x of NaN \<Rightarrow> True | Text s \<Rightarrow> True | _ \<Rightarrow> False) (descriptions df)"

text \<open>
  What trimming and case mean, said without the functions above: \<open>t\<close> is \<open>s\<close> trimmed
  when \<open>s\<close> is \<open>t\<close> between two runs of whitespace and \<open>t\<close> neither begins nor ends with
  whitespace; an ASCII letter, and its code.
\<close>

definition trimmed :: "nat list \<Rightarrow> nat list \<Rightarrow> bool" where
  "trimmed s t \<longleftrightarrow>
     (\<exists>before after. s = before @ t @ after \<and> list_all is_space before \<and> list_all is_space after) \<and>
     (t = [] \<or> (\<not> is_space (hd t) \<and> \<not> is_space (last t)))"

definition upper_case :: "nat \<Rightarrow> bool" where
  "upper_case c \<longleftrightarrow> 65 \<le> c \<and> c \<le> 90"

text \<open>
  Some stretch of the subject matches the branch, character by character; used to describe
  \<open>re_search\<close>.
\<close>

definition contains_ci :: "(nat \<Rightarrow> nat \<Rightarrow> bool) \<Rightarrow> nat list \<Rightarrow> nat list \<Rightarrow> bool" where
  "contains_ci ci token s \<longleftrightarrow> (\<exists>before mid after. s = before @ mid @ after \<and> list_all2 ci token mid)"

text \<open>
  A case table for the examples: it identifies the Kelvin sign with k and nothing else
  beyond ASCII.
\<close>

definition sample_fold :: "nat \<Rightarrow> nat" where
  "sample_fold c = (if c = 8490 then 107 else c)"

text \<open>
  A stage carries the columns labelled in \<open>L\<close> when one re-alignment of the rows, which
  only moves cells or fills in missing values, takes each of them to its column in the
  result.
\<close>

definition carries :: "string set \<Rightarrow> frame \<Rightarrow> frame \<Rightarrow> bool" where
  "carries L a b \<longleftrightarrow>
     (\<exists>g. (\<forall>ys. set (g ys) \<subseteq> insert NaN (set ys)) \<and>
          (\<forall>c\<in>L. \<forall>xs. col a c = Some xs \<longrightarrow> col b c = Some (g xs)))"




text \<open>
  One notice as the endpoint lists it, cut down to the fields \<open>process_data\<close> reads, and
  a parser that reads the one well-formed date of the samples.
\<close>

definition notice :: "cell \<Rightarrow> rat \<Rightarrow> string \<Rightarrow> string \<Rightarrow> string \<Rightarrow> string \<Rightarrow> (string \<times> cell) list" where
  "notice homologado estimado objeto cnpj poder_id uf =
    [(''valorTotalHomologado'', homologado),
     (''valorTotalEstimado'', Num estimado),
     (''objetoCompra'', Text (utf objeto)),
     (''dataAberturaProposta'', Text (utf ''2027-06-18T17:30:00'')),
     (''dataEncerramentoProposta'', Text (utf ''em breve'')),
     (''dataInclusao'', NaN),
     (''dataPublicacaoPncp'', NaN),
     (''dataAtualizacao'', NaN),
     (''dataAtualizacaoGlobal'', NaN),
     (''orgaoEntidade'', Obj [(''cnpj'', Text (utf cnpj)), (''poderId'', Text (utf poder_id))]),
     (''unidadeOrgao'', Obj [(''ufSigla'', Text (utf uf))])]"

definition sample_conv :: "cell list \<Rightarrow> cell \<Rightarrow> int option" where
  "sample_conv xs x =
     (if x = Text (utf ''2027-06-18T17:30:00'') then Some 1813339800000000000 else None)"

text \<open>
  Two notices with the same estimate and the same description, one of them already
  awarded; and three notices none of which is awarded yet, the first two with the same
  description.
\<close>

definition two_notices :: frame where
  "two_notices = DataFrame
     [notice (Num 90) 100 ''obra'' ''01'' ''E'' ''SC'',
      notice NaN 100 ''obra'' ''02'' ''M'' ''SP'']"

definition two_notices_clean :: frame where
  "two_notices_clean =
     \<lparr>index = [0, 1],
      columns =
        [(''valorTotalHomologado'', [Num 90, NaN]),
         (''valorTotalEstimado'', [Num 100, Num 100]),
         (''objetoCompra'', [Text (utf ''obra''), Text (utf ''obra'')]),
         (''dataAberturaProposta'', [Stamp 1813339800000000000, Stamp 1813339800000000000]),
         (''dataEncerramentoProposta'', [NaN, NaN]),
         (''dataInclusao'', [NaN, NaN]),
         (''dataPublicacaoPncp'', [NaN, NaN]),
         (''dataAtualizacao'', [NaN, NaN]),
         (''dataAtualizacaoGlobal'', [NaN, NaN]),
         (''valor'', [Num 100, Num 100]),
         (''cnpj'', [Text (utf ''01''), Text (utf ''02'')]),
         (''poderId'', [Text (utf ''E''), Text (utf ''M'')]),
         (''poder'', [Text (utf ''Estadual''), Text (utf ''Municipal'')]),
         (''ufSigla'', [Text (utf ''SC''), Text (utf ''SP'')])]\<rparr>"

definition three_notices :: frame where
  "three_notices = DataFrame
     [notice NaN 100 ''obra'' ''01'' ''E'' ''SC'',
      notice NaN 250 ''obra'' ''02'' ''M'' ''SP'',
      notice NaN 300 ''ponte'' ''03'' ''N'' ''RJ'']"

definition three_notices_clean :: frame where
  "three_notices_clean =
     \<lparr>index = [0, 2, 1],
      columns =
        [(''valorTotalHomologado'', [NaN, NaN, NaN]),
         (''valorTotalEstimado'', [Num 100, Num 300, NaN]),
         (''objetoCompra'', [Text (utf ''obra''), Text (utf ''ponte''), NaN]),
         (''dataAberturaProposta'', [Stamp 1813339800000000000, Stamp 1813339800000000000, NaN]),
         (''dataEncerramentoProposta'', [NaN, NaN, NaN]),
         (''dataInclusao'', [NaN, NaN, NaN]),
         (''dataPublicacaoPncp'', [NaN, NaN, NaN]),
         (''dataAtualizacao'', [NaN, NaN, NaN]),
         (''dataAtualizacaoGlobal'', [NaN, NaN, NaN]),
         (''valor'', [Num 100, Num 300, NaN]),
         (''cnpj'', [Text (utf ''01''), NaN, Text (utf ''03'')]),
         (''poderId'', [Text (utf ''E''), NaN, Text (utf ''N'')]),
         (''poder'', [Text (utf ''Estadual''), NaN, Text (utf ''Nacional'')]),
         (''ufSigla'', [Text (utf ''SC''), NaN, Text (utf ''RJ'')])]\<rparr>"

text \<open>
  A reply after which the loop goes on: a page of results that reports a number of
  remaining pages other than 0. And the query dict of a request: the content of the
  parameter bag with the two keys set.
\<close>

definition more_pages :: "reply \<Rightarrow> bool" where
  "more_pages r \<longleftrightarrow> (case remaining r of Some n \<Rightarrow> n \<noteq> 0 | None \<Rightarrow> False)"

definition query_of :: "pdict \<Rightarrow> int \<Rightarrow> pdict" where
  "query_of d page = dict_set (dict_set d ''pagina'' (PInt page)) ''tamanhoPagina'' (PInt PAGE_SIZE)"

text \<open>Sample parameter bag and replies.\<close>

definition sample_params :: pdict where
  "sample_params = [(''dataFinal'', PStr ''20400618'')]"

definition page_reply :: "string \<Rightarrow> int \<Rightarrow> reply" where
  "page_reply objeto rest =
     Answers \<lparr>data = Some [[(''objetoCompra'', Text (utf objeto))]],
              paginasRestantes = Some rest, totalPaginas = Some 2\<rparr>"

definition no_data_reply :: reply where
  "no_data_reply = Answers \<lparr>data = None, paginasRestantes = None, totalPaginas = None\<rparr>"

text \<open>A table of three rows, the second without a description.\<close>

definition sample_descriptions :: frame where
  "sample_descriptions = DataFrame
     [[(''objetoCompra'', Text (utf ''Medicamento hospitalar'')), (''valor'', Num 10)],
      [(''objetoCompra'', NaN), (''valor'', Num 20)],
      [(''objetoCompra'', Text (utf ''obra (ponte)'')), (''valor'', Num 30)]]"

text \<open>
  The control characters of the specification, and what it says the export does to a
  cell: a text loses exactly these characters, every other cell stays as it is.
\<close>

definition control_chars :: "nat set" where
  "control_chars = {0..8} \<union> {11, 12} \<union> {14..31}"

definition spec_clean :: "cell \<Rightarrow> cell" where
  "spec_clean x = (case x of Text s \<Rightarrow> Text (filter (\<lambda>c. c \<notin> control_chars) s) | _ \<Rightarrow> x)"

text \<open>A table whose first description holds control characters, tab, newline and return.\<close>

definition sample_table :: frame where
  "sample_table =
     \<lparr>index = [0, 2],
      columns = [(''objetoCompra'', [Text [111, 11, 98, 0, 114, 31, 97, 9, 10, 13], NaN]),
                 (''valor'', [Num 10, Num 20])]\<rparr>"

section \<open>Frames: looking up columns through the steps\<close>

lemma then_do_Inr: "then_do m f = Inr y \<longleftrightarrow> (\<exists>x. m = Inr x \<and> f x = Inr y)"
  by (cases m) (auto simp: then_do_def)

lemma filter_single_map_of:
  "filter (\<lambda>p. fst p = c) ps = [q] \<Longrightarrow> map_of ps c = Some (snd q)"
  by (induction ps) (auto split: if_splits)

lemma getitem_Inr_col: "getitem df c = Inr xs \<Longrightarrow> col df c = Some xs"
  by (auto simp: getitem_def col_def split: list.splits dest: filter_single_map_of)

lemma map_of_overwrite_same:
  "c \<in> fst ` set ps \<Longrightarrow> map_of (map (\<lambda>p. if fst p = c then (c, xs) else p) ps) c = Some xs"
  by (induction ps) auto

lemma map_of_overwrite_other:
  "c \<noteq> c' \<Longrightarrow> map_of (map (\<lambda>p. if fst p = c' then (c', xs) else p) ps) c = map_of ps c"
  by (induction ps) auto

lemma col_setitem_same: "col (setitem df c xs) c = Some xs"
proof (cases "c \<in> set (labels df)")
  case True
  then show ?thesis
    by (simp add: col_def setitem_def labels_def map_of_overwrite_same)
next
  case False
  then have "map_of (columns df) c = None"
    by (simp add: labels_def map_of_eq_None_iff)
  with False show ?thesis
    by (simp add: col_def setitem_def map_add_def)
qed

lemma col_setitem_other: "c \<noteq> c' \<Longrightarrow> col (setitem df c' xs) c = col df c"
  by (auto simp: col_def setitem_def map_of_overwrite_other map_add_def split: option.splits)

lemma map_of_filter_other: "c \<noteq> c' \<Longrightarrow> map_of (filter (\<lambda>p. fst p \<noteq> c') ps) c = map_of ps c"
  by (induction ps) auto

lemma col_drop_other: "drop_column df c' = Inr d \<Longrightarrow> c \<noteq> c' \<Longrightarrow> col d c = col df c"
  by (auto simp: drop_column_def col_def map_of_filter_other split: if_splits)

lemma map_of_map_snd: "map_of (map (\<lambda>p. (fst p, f (snd p))) ps) c = map_option f (map_of ps c)"
  by (induction ps) auto

lemma col_concat_left:
  "concat_columns a b = Inr r \<Longrightarrow> col a c = Some xs \<Longrightarrow> col r c = Some (align a b xs)"
  by (auto simp: concat_columns_def col_def align_def map_of_map_snd map_add_def split: if_splits)

lemma set_reindex: "set (reindex old new xs) \<subseteq> insert NaN (set xs)"
  by (auto simp: reindex_def split: option.splits dest!: map_of_SomeD set_zip_rightD)

lemma set_align: "set (align a b xs) \<subseteq> insert NaN (set xs)"
  using set_reindex by (auto simp: align_def)

lemma carries_same: "(\<And>c. c \<in> L \<Longrightarrow> col b c = col a c) \<Longrightarrow> carries L a b"
  unfolding carries_def by (rule exI[of _ id]) auto

lemma carries_trans:
  assumes "carries L a b" and "carries L b c"
  shows "carries L a c"
proof -
  from assms(1) obtain g where g: "\<forall>ys. set (g ys) \<subseteq> insert NaN (set ys)"
    "\<forall>l\<in>L. \<forall>xs. col a l = Some xs \<longrightarrow> col b l = Some (g xs)"
    unfolding carries_def by blast
  from assms(2) obtain h where h: "\<forall>ys. set (h ys) \<subseteq> insert NaN (set ys)"
    "\<forall>l\<in>L. \<forall>xs. col b l = Some xs \<longrightarrow> col c l = Some (h xs)"
    unfolding carries_def by blast
  have "\<forall>ys. set ((h \<circ> g) ys) \<subseteq> insert NaN (set ys)"
  proof
    fix ys
    have "set (h (g ys)) \<subseteq> insert NaN (set (g ys))" using h(1) by blast
    also have "\<dots> \<subseteq> insert NaN (set ys)" using g(1) by blast
    finally show "set ((h \<circ> g) ys) \<subseteq> insert NaN (set ys)" by simp
  qed
  moreover have "\<forall>l\<in>L. \<forall>xs. col a l = Some xs \<longrightarrow> col c l = Some ((h \<circ> g) xs)"
    using g(2) h(2) by simp
  ultimately show ?thesis unfolding carries_def by blast
qed

lemma flatten_carries:
  assumes "flatten c' df = Inr d" and "c' \<notin> L"
  shows "carries L df d"
proof -
  from assms(1) obtain xs dd where dd: "drop_column df c' = Inr dd"
    and cc: "concat_columns dd (json_normalize xs) = Inr d"
    by (auto simp: flatten_def then_do_Inr)
  have "\<forall>c\<in>L. \<forall>ys. col df c = Some ys \<longrightarrow> col d c = Some (align dd (json_normalize xs) ys)"
  proof (intro ballI allI impI)
    fix c ys assume "c \<in> L" and "col df c = Some ys"
    with assms(2) have "col dd c = Some ys" using col_drop_other[OF dd, of c] by auto
    then show "col d c = Some (align dd (json_normalize xs) ys)" by (rule col_concat_left[OF cc])
  qed
  then show ?thesis unfolding carries_def using set_align by blast
qed

lemma add_poder_carries:
  assumes "add_poder df = Inr d" and "''poder'' \<notin> L"
  shows "carries L df d"
proof (rule carries_same)
  fix c assume "c \<in> L"
  with assms(2) have "c \<noteq> ''poder''" by auto
  with assms(1) show "col d c = col df c"
    by (auto simp: add_poder_def then_do_Inr col_setitem_other split: if_splits)
qed

lemma flatten_poder_flatten_carries:
  assumes "flatten ''orgaoEntidade'' a = Inr b" and "add_poder b = Inr c"
    and "flatten ''unidadeOrgao'' c = Inr d"
    and "''orgaoEntidade'' \<notin> L" and "''poder'' \<notin> L" and "''unidadeOrgao'' \<notin> L"
  shows "carries L a d"
  using assms by (blast intro: carries_trans flatten_carries add_poder_carries)

lemma copy_valor_cols:
  assumes "copy_valor df = Inr d"
  shows "\<exists>xs. col d ''valor'' = Some xs \<and> col d ''valorTotalEstimado'' = Some xs"
proof -
  from assms obtain xs where g: "getitem df ''valorTotalEstimado'' = Inr xs"
    and d: "d = setitem df ''valor'' xs"
    by (auto simp: copy_valor_def then_do_Inr)
  have "col d ''valor'' = Some xs" by (simp add: d col_setitem_same)
  moreover have "col d ''valorTotalEstimado'' = Some xs"
    using getitem_Inr_col[OF g] by (simp add: d col_setitem_other)
  ultimately show ?thesis by blast
qed


section \<open>process_data: the deduplication\<close>

lemma length_duplicated: "length (duplicated seen ks) = length ks"
  by (induction ks arbitrary: seen) auto

lemma duplicated_nth:
  "i < length ks \<Longrightarrow> duplicated seen ks ! i = (ks ! i \<in> set seen \<union> set (take i ks))"
proof (induction ks arbitrary: seen i)
  case Nil
  then show ?case by simp
next
  case (Cons k ks)
  show ?case
  proof (cases i)
    case 0
    then show ?thesis by simp
  next
    case (Suc n)
    with Cons.prems have "n < length ks" by simp
    from Cons.IH[OF this, of "k # seen"] Suc show ?thesis by auto
  qed
qed

lemma boolean_mask_Cons:
  "boolean_mask (b # m) (x # xs) = (if b then x # boolean_mask m xs else boolean_mask m xs)"
  by (simp add: boolean_mask_def)

lemma boolean_mask_Nil: "boolean_mask m [] = []" "boolean_mask [] xs = []"
  by (simp_all add: boolean_mask_def)

lemma set_boolean_mask: "set (boolean_mask m xs) \<subseteq> set xs"
  by (auto simp: boolean_mask_def dest: set_zip_rightD)

lemma first_occurrences_distinct:
  "distinct (boolean_mask (map Not (duplicated seen ks)) ks) \<and>
   set (boolean_mask (map Not (duplicated seen ks)) ks) \<inter> set seen = {}"
proof (induction ks arbitrary: seen)
  case Nil
  then show ?case by (simp add: boolean_mask_Nil)
next
  case (Cons k ks)
  let ?rest = "boolean_mask (map Not (duplicated (k # seen) ks)) ks"
  from Cons.IH[of "k # seen"] have d: "distinct ?rest" and s: "set ?rest \<inter> set (k # seen) = {}"
    by blast+
  show ?case
  proof (cases "k \<in> set seen")
    case True
    with d s show ?thesis by (auto simp: boolean_mask_Cons)
  next
    case False
    with d s show ?thesis by (auto simp: boolean_mask_Cons)
  qed
qed

lemma boolean_mask_map: "boolean_mask m (map f xs) = map f (boolean_mask m xs)"
proof (induction m arbitrary: xs)
  case Nil
  then show ?case by (simp add: boolean_mask_Nil)
next
  case (Cons b m)
  then show ?case by (cases xs) (simp_all add: boolean_mask_Nil boolean_mask_Cons)
qed

lemma boolean_mask_zip:
  "length xs = length ys \<Longrightarrow> boolean_mask m (zip xs ys) = zip (boolean_mask m xs) (boolean_mask m ys)"
proof (induction m arbitrary: xs ys)
  case Nil
  then show ?case by (simp add: boolean_mask_Nil)
next
  case (Cons b m)
  show ?case
  proof (cases xs)
    case Nil
    then show ?thesis by (simp add: boolean_mask_Nil)
  next
    case xs: (Cons x xs')
    with Cons.prems obtain y ys' where ys: "ys = y # ys'" and "length xs' = length ys'"
      by (cases ys) auto
    with Cons.IH[of xs' ys'] xs show ?thesis by (simp add: boolean_mask_Cons)
  qed
qed

lemma subseq_boolean_mask: "subseq (boolean_mask m xs) xs"
proof (induction m arbitrary: xs)
  case Nil
  then show ?case by (simp add: boolean_mask_Nil)
next
  case (Cons b m)
  then show ?case by (cases xs) (auto simp: boolean_mask_Nil boolean_mask_Cons)
qed

lemma duplicated_map_inj:
  "inj f \<Longrightarrow> duplicated (map f seen) (map f ks) = duplicated seen ks"
proof (induction ks arbitrary: seen)
  case Nil
  then show ?case by simp
next
  case (Cons k ks)
  from Cons.IH[OF Cons.prems, of "k # seen"] Cons.prems show ?case
    by (auto simp: inj_image_mem_iff)
qed

lemma row_keys_two:
  "length xs = n \<Longrightarrow> length ys = n \<Longrightarrow> row_keys n [xs, ys] = map (\<lambda>p. [fst p, snd p]) (zip xs ys)"
  by (auto simp: row_keys_def intro!: nth_equalityI)

lemma col_keep_rows: "col (keep_rows m df) c = map_option (boolean_mask m) (col df c)"
  by (simp add: col_def keep_rows_def map_of_map_snd)

lemma getitem_in_columns: "getitem df c = Inr xs \<Longrightarrow> (c, xs) \<in> set (columns df)"
proof -
  assume "getitem df c = Inr xs"
  then have "col df c = Some xs" by (rule getitem_Inr_col)
  then show ?thesis unfolding col_def by (rule map_of_SomeD)
qed

lemma well_formed_length: "well_formed df \<Longrightarrow> (c, xs) \<in> set (columns df) \<Longrightarrow> length xs = length (index df)"
  by (auto simp: well_formed_def list_all_iff)

lemma inj_pair_list: "inj (\<lambda>p. [fst p, snd p])"
  by (auto simp: inj_on_def prod_eq_iff)

text \<open>
  Claim C1, as the code has it. The first step of \<open>process_data\<close> removes duplicates on
  the pair (\<open>valorTotalHomologado\<close>, \<open>objetoCompra\<close>): the awarded value, not the
  estimated one. On a well-formed frame, no two rows that survive this step have the same
  pair under these two labels; a row survives exactly when no earlier row has its pair
  (the first of each pair is kept); and the survivors keep their order, in the row labels
  and in every column.
\<close>

theorem drop_duplicates_keeps_first_of_each_pair:
  assumes dd: "drop_duplicates [''valorTotalHomologado'', ''objetoCompra''] df = Inr d"
    and wf: "well_formed df"
  shows "distinct (pairs ''valorTotalHomologado'' ''objetoCompra'' d) \<and>
         (\<exists>m. length m = length (index df) \<and>
              (\<forall>i<length m. m ! i = first_of_its_pair (pairs ''valorTotalHomologado'' ''objetoCompra'' df) i) \<and>
              d = keep_rows m df) \<and>
         subseq (index d) (index df) \<and>
         (\<forall>c xs. col df c = Some xs \<longrightarrow> (\<exists>ys. col d c = Some ys \<and> subseq ys xs))"
proof -
  from dd obtain vs os where gv: "getitem df ''valorTotalHomologado'' = Inr vs"
    and go: "getitem df ''objetoCompra'' = Inr os"
    and d: "d = keep_rows (map Not (duplicated [] (row_keys (length (index df)) [vs, os]))) df"
    by (auto simp: drop_duplicates_def then_do_Inr split: if_splits)
  let ?n = "length (index df)"
  let ?ps = "zip vs os"
  define m where "m = map Not (duplicated [] ?ps)"
  have lv: "length vs = ?n" and lo: "length os = ?n"
    using wf gv go by (auto dest!: getitem_in_columns dest: well_formed_length)
  have cv: "col df ''valorTotalHomologado'' = Some vs" and co: "col df ''objetoCompra'' = Some os"
    using gv go by (auto dest: getitem_Inr_col)
  have pdf: "pairs ''valorTotalHomologado'' ''objetoCompra'' df = ?ps"
    by (simp add: pairs_def cv co)
  have "duplicated [] (row_keys ?n [vs, os]) = duplicated (map (\<lambda>p. [fst p, snd p]) []) (map (\<lambda>p. [fst p, snd p]) ?ps)"
    by (simp add: row_keys_two[OF lv lo])
  also have "\<dots> = duplicated [] ?ps"
    by (rule duplicated_map_inj[OF inj_pair_list])
  finally have d': "d = keep_rows m df" using d by (simp add: m_def)
  have pd: "pairs ''valorTotalHomologado'' ''objetoCompra'' d = boolean_mask m ?ps"
    using lv lo by (simp add: pairs_def d' col_keep_rows cv co boolean_mask_zip)
  have 1: "distinct (pairs ''valorTotalHomologado'' ''objetoCompra'' d)"
    unfolding pd m_def using first_occurrences_distinct[of "[]" ?ps] by simp
  have lm: "length m = ?n" using lv lo by (simp add: m_def length_duplicated)
  have fi: "\<forall>i<length m. m ! i = first_of_its_pair (pairs ''valorTotalHomologado'' ''objetoCompra'' df) i"
  proof (intro allI impI)
    fix i assume i: "i < length m"
    then have il: "i < length ?ps" by (simp add: m_def length_duplicated)
    have "m ! i = (\<not> duplicated [] ?ps ! i)" using il by (simp add: m_def length_duplicated)
    also have "\<dots> = (?ps ! i \<notin> set (take i ?ps))" using duplicated_nth[OF il, of "[]"] by simp
    also have "\<dots> = first_of_its_pair ?ps i"
      using il by (auto simp: first_of_its_pair_def list_all_iff in_set_conv_nth)
    finally show "m ! i = first_of_its_pair (pairs ''valorTotalHomologado'' ''objetoCompra'' df) i"
      by (simp add: pdf)
  qed
  have 2: "\<exists>m. length m = ?n \<and>
      (\<forall>i<length m. m ! i = first_of_its_pair (pairs ''valorTotalHomologado'' ''objetoCompra'' df) i) \<and>
      d = keep_rows m df"
    using lm fi d' by blast
  have 3: "subseq (index d) (index df)"
    by (simp add: d' keep_rows_def subseq_boolean_mask)
  have 4: "\<forall>c xs. col df c = Some xs \<longrightarrow> (\<exists>ys. col d c = Some ys \<and> subseq ys xs)"
    by (simp add: d' col_keep_rows subseq_boolean_mask)
  from 1 2 3 4 show ?thesis by blast
qed

text \<open>
  The theorem at the three sample notices: the second has the pair of the first and is
  dropped, rows 0 and 2 remain.
\<close>

theorem drop_duplicates_three_notices:
  "well_formed three_notices \<and>
   drop_duplicates [''valorTotalHomologado'', ''objetoCompra''] three_notices =
     Inr (keep_rows [True, False, True] three_notices) \<and>
   pairs ''valorTotalHomologado'' ''objetoCompra'' (keep_rows [True, False, True] three_notices) =
     [(NaN, Text (utf ''obra'')), (NaN, Text (utf ''ponte''))] \<and>
   distinct (pairs ''valorTotalHomologado'' ''objetoCompra'' (keep_rows [True, False, True] three_notices)) \<and>
   index (keep_rows [True, False, True] three_notices) = [0, 2] \<and>
   subseq (index (keep_rows [True, False, True] three_notices)) (index three_notices)"
proof -
  have w: "well_formed three_notices" by code_simp
  have e: "drop_duplicates [''valorTotalHomologado'', ''objetoCompra''] three_notices =
     Inr (keep_rows [True, False, True] three_notices)" by code_simp
  have p: "pairs ''valorTotalHomologado'' ''objetoCompra'' (keep_rows [True, False, True] three_notices) =
     [(NaN, Text (utf ''obra'')), (NaN, Text (utf ''ponte''))]" by code_simp
  have i: "index (keep_rows [True, False, True] three_notices) = [0, 2]" by code_simp
  from drop_duplicates_keeps_first_of_each_pair[OF e w] w e p i show ?thesis by blast
qed

text \<open>
  Claim C1 as stated fails: the two sample notices have the same estimated value and the
  same description and differ in the awarded value only; both are in the clean dataset.
\<close>

theorem same_estimate_and_description_both_kept:
  "map_sum id (pairs ''valorTotalEstimado'' ''objetoCompra'') (process_data sample_conv two_notices) =
     Inr [(Num 100, Text (utf ''obra'')), (Num 100, Text (utf ''obra''))]"
  by code_simp

text \<open>
  Claim C2 fails on the code. \<open>drop_duplicates\<close> leaves the surviving rows their old
  labels (0 and 2 for the three sample notices), \<open>json_normalize\<close> numbers the unpacked
  objects afresh (0 and 1), and \<open>concat\<close> joins on the labels: the row of the third
  notice (label 2) gets missing values for its own nested fields (\<open>cnpj\<close>, \<open>poderId\<close>,
  \<open>ufSigla\<close>), which end up in a row of their own (label 1) that has no notice, and the
  clean dataset has three rows where two survived.
\<close>

theorem nested_fields_land_in_another_row:
  "process_data sample_conv three_notices = Inr three_notices_clean"
  by code_simp

text \<open>
  The labels behind it: the survivors are rows 0 and 2, the unpacked objects are numbered
  0 and 1, and the join has the rows 0, 2 and 1.
\<close>

lemma labels_after_drop_and_after_normalize:
  "map_sum id index (drop_duplicates [''valorTotalHomologado'', ''objetoCompra''] three_notices) = Inr [0, 2] \<and>
   index (json_normalize [Obj [(''cnpj'', Text (utf ''01''))], Obj [(''cnpj'', Text (utf ''03''))]]) = [0, 1] \<and>
   union_index [0, 2] [0, 1] = [0, 2, 1]"
  by code_simp

section \<open>process_data: dates and the valor column\<close>

lemma coerce_date_other: "coerce_date conv c' df = Inr d \<Longrightarrow> c \<noteq> c' \<Longrightarrow> col d c = col df c"
  by (auto simp: coerce_date_def then_do_Inr col_setitem_other)


lemma coerce_dates_other:
  "coerce_dates conv cs df = Inr d \<Longrightarrow> c \<notin> set cs \<Longrightarrow> col d c = col df c"
proof (induction cs arbitrary: df)
  case Nil
  then show ?case by simp
next
  case (Cons c' cs)
  from Cons.prems(1) obtain d1 where 1: "coerce_date conv c' df = Inr d1"
    and 2: "coerce_dates conv cs d1 = Inr d"
    by (auto simp: then_do_Inr)
  from Cons.prems(2) have "c \<noteq> c'" "c \<notin> set cs" by auto
  with Cons.IH[OF 2] coerce_date_other[OF 1] show ?case by simp
qed



lemma drop_duplicates_col:
  "drop_duplicates cs df = Inr d \<Longrightarrow> \<exists>m. \<forall>c. col d c = map_option (boolean_mask m) (col df c)"
  by (auto simp: drop_duplicates_def then_do_Inr col_keep_rows split: if_splits)

lemma count_label: "length (filter (\<lambda>p. fst p = c) ps) = count_list (map fst ps) c"
  by (induction ps) auto

lemma getitem_once: "count_list (labels df) c = 1 \<Longrightarrow> \<exists>xs. getitem df c = Inr xs"
proof -
  assume "count_list (labels df) c = 1"
  then have "length (filter (\<lambda>p. fst p = c) (columns df)) = 1"
    by (simp add: count_label labels_def)
  then obtain p where "filter (\<lambda>p. fst p = c) (columns df) = [p]"
    by (auto simp: length_Suc_conv)
  then show ?thesis by (simp add: getitem_def)
qed
























text \<open>
  Claim C3. In every frame \<open>process_data\<close> returns, the column \<open>valor\<close> is, cell for
  cell, the column \<open>valorTotalEstimado\<close>, and each of its cells is a cell of the input's
  \<open>valorTotalEstimado\<close> column or missing.
\<close>

theorem valor_copies_valorTotalEstimado:
  assumes "process_data conv df = Inr out"
  shows "\<exists>xs ys. col out ''valor'' = Some xs \<and> col out ''valorTotalEstimado'' = Some xs \<and>
           col df ''valorTotalEstimado'' = Some ys \<and> set xs \<subseteq> insert NaN (set ys)"
proof -
  from assms obtain d1 d2 d3 d4 d5 where
    s1: "drop_duplicates [''valorTotalHomologado'', ''objetoCompra''] df = Inr d1" and
    s2: "coerce_dates conv date_columns d1 = Inr d2" and
    s3: "copy_valor d2 = Inr d3" and
    s4: "flatten ''orgaoEntidade'' d3 = Inr d4" and
    s5: "add_poder d4 = Inr d5" and
    s6: "flatten ''unidadeOrgao'' d5 = Inr out"
    unfolding process_data_def then_do_Inr by blast
  from copy_valor_cols[OF s3] obtain xs where
    xs: "col d3 ''valor'' = Some xs" "col d3 ''valorTotalEstimado'' = Some xs" by blast
  have "col d3 ''valorTotalEstimado'' = col d2 ''valorTotalEstimado''"
    using s3 by (auto simp: copy_valor_def then_do_Inr col_setitem_other)
  also have "\<dots> = col d1 ''valorTotalEstimado''"
    by (rule coerce_dates_other[OF s2]) (simp add: date_columns_def)
  finally have d1: "col d1 ''valorTotalEstimado'' = Some xs" using xs(2) by simp
  from drop_duplicates_col[OF s1] obtain m where
    "col d1 ''valorTotalEstimado'' = map_option (boolean_mask m) (col df ''valorTotalEstimado'')"
    by blast
  with d1 obtain ys where ys: "col df ''valorTotalEstimado'' = Some ys" and xm: "xs = boolean_mask m ys"
    by auto
  have "carries {''valor'', ''valorTotalEstimado''} d3 out"
    by (rule flatten_poder_flatten_carries[OF s4 s5 s6]) simp_all
  then obtain g where g: "\<forall>zs. set (g zs) \<subseteq> insert NaN (set zs)"
    "\<forall>c\<in>{''valor'', ''valorTotalEstimado''}. \<forall>zs. col d3 c = Some zs \<longrightarrow> col out c = Some (g zs)"
    unfolding carries_def by blast
  with xs have o: "col out ''valor'' = Some (g xs)" "col out ''valorTotalEstimado'' = Some (g xs)"
    by simp_all
  have "set (g xs) \<subseteq> insert NaN (set xs)" using g(1) by blast
  also have "\<dots> \<subseteq> insert NaN (set ys)" using set_boolean_mask[of m ys] xm by auto
  finally have "set (g xs) \<subseteq> insert NaN (set ys)" .
  with o ys show ?thesis by blast
qed

text \<open>
  At the two sample notices: \<open>valor\<close> is the estimate (100 and 100), not the awarded
  value (90 and missing).
\<close>

theorem valor_witness:
  "process_data sample_conv two_notices = Inr two_notices_clean \<and>
   col two_notices_clean ''valor'' = Some [Num 100, Num 100] \<and>
   col two_notices_clean ''valorTotalEstimado'' = Some [Num 100, Num 100] \<and>
   col two_notices_clean ''valorTotalHomologado'' = Some [Num 90, NaN] \<and>
   col two_notices ''valorTotalEstimado'' = Some [Num 100, Num 100]"
proof -
  have e: "process_data sample_conv two_notices = Inr two_notices_clean" by code_simp
  have v: "col two_notices_clean ''valor'' = Some [Num 100, Num 100]" by code_simp
  have h: "col two_notices_clean ''valorTotalHomologado'' = Some [Num 90, NaN]" by code_simp
  have i: "col two_notices ''valorTotalEstimado'' = Some [Num 100, Num 100]" by code_simp
  from valor_copies_valorTotalEstimado[OF e] v h i e show ?thesis by auto
qed


section \<open>query_all_contracts\<close>

lemma map_of_dict_set_same: "map_of (dict_set d k v) k = Some v"
  by (induction d) auto

lemma map_of_dict_set_other: "k' \<noteq> k \<Longrightarrow> map_of (dict_set d k v) k' = map_of d k'"
  by (induction d) auto

lemma query_of_pagina: "map_of (query_of d page) ''pagina'' = Some (PInt page)"
  by (simp add: query_of_def map_of_dict_set_other map_of_dict_set_same)

lemma query_of_tamanho: "map_of (query_of d page) ''tamanhoPagina'' = Some (PInt 50)"
  by (simp add: query_of_def map_of_dict_set_same PAGE_SIZE_def)

lemma query_of_other:
  "k \<noteq> ''pagina'' \<Longrightarrow> k \<noteq> ''tamanhoPagina'' \<Longrightarrow> map_of (query_of d page) k = map_of d k"
  by (simp add: query_of_def map_of_dict_set_other)

lemma fetch_loop_step:
  "fetch_loop params h page all_data (r # rs) =
     (case unpack_page r of
        Inl e \<Rightarrow> (h @ [query_of (h ! params) page], [query_of (h ! params) page], Returned None)
      | Inr (df, rest, pages) \<Rightarrow>
          if rest = 0
          then (h @ [query_of (h ! params) page], [query_of (h ! params) page],
                Returned (Some (concat_rows (all_data @ [df]))))
          else (case fetch_loop params (h @ [query_of (h ! params) page]) (page + 1) (all_data @ [df]) rs of
                  (h', qs, res) \<Rightarrow> (h', query_of (h ! params) page # qs, res)))"
  by (simp add: dict_copy_def dict_store_def query_of_def Let_def split: sum.splits prod.splits)

declare fetch_loop.simps(2) [simp del]

lemma unpack_more_pages:
  "more_pages r \<Longrightarrow> \<exists>rest pages. unpack_page r = Inr (page_of r, rest, pages) \<and> rest \<noteq> 0"
  by (auto simp: more_pages_def remaining_def unpack_page_def page_of_def split: option.splits)

lemma unpack_last_page:
  "remaining r = Some 0 \<Longrightarrow> \<exists>pages. unpack_page r = Inr (page_of r, 0, pages)"
  by (auto simp: remaining_def unpack_page_def page_of_def split: option.splits)

lemma unpack_failed: "fetch_page r = None \<Longrightarrow> unpack_page r = Inl TypeError"
  by (simp add: unpack_page_def)

lemma fetch_loop_store:
  "fetch_loop params h page all_data rs = (h', qs, res) \<Longrightarrow> h' = h @ qs"
proof (induction rs arbitrary: h page all_data h' qs res)
  case Nil
  then show ?case by simp
next
  case (Cons r rs)
  show ?case
  proof (cases "unpack_page r")
    case (Inl e)
    with Cons.prems show ?thesis by (auto simp: fetch_loop_step)
  next
    case (Inr t)
    obtain df rest pages where t: "t = (df, rest, pages)" by (cases t)
    show ?thesis
    proof (cases "rest = 0")
      case True
      with Cons.prems Inr t show ?thesis by (auto simp: fetch_loop_step)
    next
      case False
      obtain h1 q1 r1 where
        rec: "fetch_loop params (h @ [query_of (h ! params) page]) (page + 1) (all_data @ [df]) rs = (h1, q1, r1)"
        by (cases "fetch_loop params (h @ [query_of (h ! params) page]) (page + 1) (all_data @ [df]) rs")
      from Cons.IH[OF rec] have "h1 = (h @ [query_of (h ! params) page]) @ q1" .
      with Cons.prems Inr t False rec show ?thesis by (auto simp: fetch_loop_step)
    qed
  qed
qed

lemma fetch_loop_queries:
  "params < length h \<Longrightarrow> fetch_loop params h page all_data rs = (h', qs, res) \<Longrightarrow>
   qs = map (\<lambda>i. query_of (h ! params) (page + int i)) [0..<length qs]"
proof (induction rs arbitrary: h page all_data h' qs res)
  case Nil
  then show ?case by simp
next
  case (Cons r rs)
  show ?case
  proof (cases "unpack_page r")
    case (Inl e)
    with Cons.prems show ?thesis by (auto simp: fetch_loop_step)
  next
    case (Inr t)
    obtain df rest pages where t: "t = (df, rest, pages)" by (cases t)
    show ?thesis
    proof (cases "rest = 0")
      case True
      with Cons.prems Inr t show ?thesis by (auto simp: fetch_loop_step)
    next
      case False
      let ?h = "h @ [query_of (h ! params) page]"
      obtain h1 q1 r1 where
        rec: "fetch_loop params ?h (page + 1) (all_data @ [df]) rs = (h1, q1, r1)"
        by (cases "fetch_loop params ?h (page + 1) (all_data @ [df]) rs")
      from Cons.prems(1) have lt: "params < length ?h" and same: "?h ! params = h ! params"
        by (simp_all add: nth_append)
      from Cons.IH[OF lt rec] same
      have q1: "q1 = map (\<lambda>i. query_of (h ! params) (page + 1 + int i)) [0..<length q1]" by simp
      from Cons.prems(2) Inr t False rec have qs: "qs = query_of (h ! params) page # q1"
        by (simp add: fetch_loop_step)
      have "map (\<lambda>i. query_of (h ! params) (page + int i)) [0..<length qs] =
            query_of (h ! params) page # map (\<lambda>i. query_of (h ! params) (page + int (Suc i))) [0..<length q1]"
        by (simp add: qs map_upt_Suc del: upt_Suc)
      also have "map (\<lambda>i. query_of (h ! params) (page + int (Suc i))) [0..<length q1] =
                 map (\<lambda>i. query_of (h ! params) (page + 1 + int i)) [0..<length q1]"
        by (simp add: algebra_simps)
      also have "\<dots> = q1" by (rule q1[symmetric])
      finally show ?thesis using qs by simp
    qed
  qed
qed


lemma fetch_loop_paginas:
  "fetch_loop params h page all_data rs = (h', qs, res) \<Longrightarrow>
   map (\<lambda>q. map_of q ''pagina'') qs = map (\<lambda>i. Some (PInt (page + int i))) [0..<length qs] \<and>
   list_all (\<lambda>q. map_of q ''tamanhoPagina'' = Some (PInt 50)) qs"
proof (induction rs arbitrary: h page all_data h' qs res)
  case Nil
  then show ?case by simp
next
  case (Cons r rs)
  show ?case
  proof (cases "unpack_page r")
    case (Inl e)
    with Cons.prems show ?thesis by (auto simp: fetch_loop_step query_of_pagina query_of_tamanho)
  next
    case (Inr t)
    obtain df rest pages where t: "t = (df, rest, pages)" by (cases t)
    show ?thesis
    proof (cases "rest = 0")
      case True
      with Cons.prems Inr t show ?thesis
        by (auto simp: fetch_loop_step query_of_pagina query_of_tamanho)
    next
      case False
      let ?h = "h @ [query_of (h ! params) page]"
      obtain h1 q1 r1 where
        rec: "fetch_loop params ?h (page + 1) (all_data @ [df]) rs = (h1, q1, r1)"
        by (cases "fetch_loop params ?h (page + 1) (all_data @ [df]) rs")
      from Cons.IH[OF rec]
      have p1: "map (\<lambda>q. map_of q ''pagina'') q1 = map (\<lambda>i. Some (PInt (page + 1 + int i))) [0..<length q1]"
        and t1: "list_all (\<lambda>q. map_of q ''tamanhoPagina'' = Some (PInt 50)) q1" by blast+
      from Cons.prems Inr t False rec have qs: "qs = query_of (h ! params) page # q1"
        by (simp add: fetch_loop_step)
      have "map (\<lambda>i. Some (PInt (page + int i))) [0..<length qs] =
            Some (PInt page) # map (\<lambda>i. Some (PInt (page + int (Suc i)))) [0..<length q1]"
        by (simp add: qs map_upt_Suc del: upt_Suc)
      also have "map (\<lambda>i. Some (PInt (page + int (Suc i)))) [0..<length q1] =
                 map (\<lambda>i. Some (PInt (page + 1 + int i))) [0..<length q1]"
        by (simp add: algebra_simps)
      also have "\<dots> = map (\<lambda>q. map_of q ''pagina'') q1" by (rule p1[symmetric])
      finally show ?thesis using qs t1 by (simp add: query_of_pagina query_of_tamanho)
    qed
  qed
qed

lemma fetch_loop_Cons_more:
  assumes "more_pages r"
  shows "fetch_loop params h page all_data (r # rs) =
     (case fetch_loop params (h @ [query_of (h ! params) page]) (page + 1) (all_data @ [page_of r]) rs of
        (h', qs, res) \<Rightarrow> (h', query_of (h ! params) page # qs, res))"
proof -
  from unpack_more_pages[OF assms] obtain rest pages where
    "unpack_page r = Inr (page_of r, rest, pages)" and "rest \<noteq> 0" by blast
  then show ?thesis by (simp add: fetch_loop_step)
qed

lemma fetch_loop_running:
  "list_all more_pages rs \<Longrightarrow> fetch_loop params h page all_data rs = (h', qs, res) \<Longrightarrow>
   res = Running \<and> length qs = length rs"
proof (induction rs arbitrary: h page all_data h' qs res)
  case Nil
  then show ?case by simp
next
  case (Cons r rs)
  from Cons.prems(1) have mr: "more_pages r" and ms: "list_all more_pages rs" by simp_all
  let ?h = "h @ [query_of (h ! params) page]"
  obtain h1 q1 r1 where
    rec: "fetch_loop params ?h (page + 1) (all_data @ [page_of r]) rs = (h1, q1, r1)"
    by (cases "fetch_loop params ?h (page + 1) (all_data @ [page_of r]) rs")
  from Cons.IH[OF ms rec] have "r1 = Running" "length q1 = length rs" by simp_all
  with Cons.prems(2) rec show ?case by (auto simp: fetch_loop_Cons_more[OF mr])
qed

lemma fetch_loop_last:
  "list_all more_pages pre \<Longrightarrow> remaining r = Some 0 \<Longrightarrow>
   fetch_loop params h page all_data (pre @ r # post) = (h', qs, res) \<Longrightarrow>
   res = Returned (Some (concat_rows (all_data @ map page_of pre @ [page_of r]))) \<and>
   length qs = length pre + 1"
proof (induction pre arbitrary: h page all_data h' qs res)
  case Nil
  from unpack_last_page[OF Nil.prems(2)] obtain pages where
    "unpack_page r = Inr (page_of r, 0, pages)" by blast
  with Nil.prems(3) show ?case by (auto simp: fetch_loop_step)
next
  case (Cons r0 pre)
  from Cons.prems(1) have mr: "more_pages r0" and ms: "list_all more_pages pre" by simp_all
  let ?h = "h @ [query_of (h ! params) page]"
  obtain h1 q1 r1 where
    rec: "fetch_loop params ?h (page + 1) (all_data @ [page_of r0]) (pre @ r # post) = (h1, q1, r1)"
    by (cases "fetch_loop params ?h (page + 1) (all_data @ [page_of r0]) (pre @ r # post)")
  from Cons.IH[OF ms Cons.prems(2) rec]
  have "r1 = Returned (Some (concat_rows ((all_data @ [page_of r0]) @ map page_of pre @ [page_of r])))"
    "length q1 = length pre + 1" by simp_all
  with Cons.prems(3) rec show ?case by (auto simp: fetch_loop_Cons_more[OF mr])
qed

lemma fetch_loop_failed:
  "list_all more_pages pre \<Longrightarrow> fetch_page r = None \<Longrightarrow>
   fetch_loop params h page all_data (pre @ r # post) = (h', qs, res) \<Longrightarrow>
   res = Returned None \<and> length qs = length pre + 1"
proof (induction pre arbitrary: h page all_data h' qs res)
  case Nil
  from unpack_failed[OF Nil.prems(2)] Nil.prems(3) show ?case by (auto simp: fetch_loop_step)
next
  case (Cons r0 pre)
  from Cons.prems(1) have mr: "more_pages r0" and ms: "list_all more_pages pre" by simp_all
  let ?h = "h @ [query_of (h ! params) page]"
  obtain h1 q1 r1 where
    rec: "fetch_loop params ?h (page + 1) (all_data @ [page_of r0]) (pre @ r # post) = (h1, q1, r1)"
    by (cases "fetch_loop params ?h (page + 1) (all_data @ [page_of r0]) (pre @ r # post)")
  from Cons.IH[OF ms Cons.prems(2) rec] have "r1 = Returned None" "length q1 = length pre + 1"
    by simp_all
  with Cons.prems(3) rec show ?case by (auto simp: fetch_loop_Cons_more[OF mr])
qed

lemma fetch_page_None_iff:
  "fetch_page r = None \<longleftrightarrow>
     (\<exists>e. r = Fails e) \<or>
     (\<exists>p. r = Answers p \<and> (data p = None \<or> paginasRestantes p = None \<or> totalPaginas p = None))"
  by (auto simp: fetch_page_def fetch_page_body_def split: reply.splits option.splits)

text \<open>
  Claim C4. Whatever the parameter bag and whatever the replies, the requests of
  \<open>query_all_contracts\<close> carry \<open>pagina\<close> 1, 2, 3, ... in this order and \<open>tamanhoPagina\<close>
  50. As long as every reply is a page that reports remaining pages, the loop goes on:
  it has sent one request per reply and has not returned (there is no cap). At the first
  page that reports \<open>paginasRestantes\<close> 0 it stops: it sends nothing more and returns
  the pages received so far, concatenated.
\<close>

theorem pages_requested_in_order_until_none_remain:
  assumes "query_all_contracts params h replies = (h', sent, res)"
  shows "map (\<lambda>q. map_of q ''pagina'') sent = map (\<lambda>i. Some (PInt (1 + int i))) [0..<length sent] \<and>
         list_all (\<lambda>q. map_of q ''tamanhoPagina'' = Some (PInt 50)) sent \<and>
         (list_all more_pages replies \<longrightarrow> res = Running \<and> length sent = length replies) \<and>
         (\<forall>pre r post. replies = pre @ r # post \<and> list_all more_pages pre \<and> remaining r = Some 0 \<longrightarrow>
            res = Returned (Some (concat_rows (map page_of (pre @ [r])))) \<and>
            length sent = length pre + 1)"
proof -
  from assms have loop: "fetch_loop params h 1 [] replies = (h', sent, res)"
    by (simp add: query_all_contracts_def)
  have 1: "map (\<lambda>q. map_of q ''pagina'') sent = map (\<lambda>i. Some (PInt (1 + int i))) [0..<length sent]"
    and 2: "list_all (\<lambda>q. map_of q ''tamanhoPagina'' = Some (PInt 50)) sent"
    using fetch_loop_paginas[OF loop] by blast+
  have 3: "list_all more_pages replies \<longrightarrow> res = Running \<and> length sent = length replies"
    using fetch_loop_running[OF _ loop] by blast
  have 4: "\<forall>pre r post. replies = pre @ r # post \<and> list_all more_pages pre \<and> remaining r = Some 0 \<longrightarrow>
            res = Returned (Some (concat_rows (map page_of (pre @ [r])))) \<and>
            length sent = length pre + 1"
  proof (intro allI impI)
    fix pre r post
    assume a: "replies = pre @ r # post \<and> list_all more_pages pre \<and> remaining r = Some 0"
    with loop have "fetch_loop params h 1 [] (pre @ r # post) = (h', sent, res)" by simp
    from fetch_loop_last[OF _ _ this] a
    show "res = Returned (Some (concat_rows (map page_of (pre @ [r])))) \<and> length sent = length pre + 1"
      by simp
  qed
  from 1 2 3 4 show ?thesis by blast
qed

text \<open>
  Two runs: the second page reports 0 remaining pages and ends the fetch, a third reply is
  never asked for; and a run whose two pages both report more, still running.
\<close>

theorem pages_requested_witness:
  "query_all_contracts 0 [sample_params] [page_reply ''obra'' 1, page_reply ''ponte'' 0, page_reply ''cais'' 0] =
     ([sample_params, query_of sample_params 1, query_of sample_params 2],
      [query_of sample_params 1, query_of sample_params 2],
      Returned (Some (concat_rows [page_of (page_reply ''obra'' 1), page_of (page_reply ''ponte'' 0)]))) \<and>
   map (\<lambda>q. map_of q ''pagina'') [query_of sample_params 1, query_of sample_params 2] =
     [Some (PInt 1), Some (PInt 2)] \<and>
   list_all more_pages [page_reply ''obra'' 1] \<and> remaining (page_reply ''ponte'' 0) = Some 0 \<and>
   query_all_contracts 0 [sample_params] [page_reply ''obra'' 1, page_reply ''ponte'' 3] =
     ([sample_params, query_of sample_params 1, query_of sample_params 2],
      [query_of sample_params 1, query_of sample_params 2], Running) \<and>
   list_all more_pages [page_reply ''obra'' 1, page_reply ''ponte'' 3]"
proof -
  have e1: "query_all_contracts 0 [sample_params] [page_reply ''obra'' 1, page_reply ''ponte'' 0, page_reply ''cais'' 0] =
     ([sample_params, query_of sample_params 1, query_of sample_params 2],
      [query_of sample_params 1, query_of sample_params 2],
      Returned (Some (concat_rows [page_of (page_reply ''obra'' 1), page_of (page_reply ''ponte'' 0)])))"
    by code_simp
  have e2: "query_all_contracts 0 [sample_params] [page_reply ''obra'' 1, page_reply ''ponte'' 3] =
     ([sample_params, query_of sample_params 1, query_of sample_params 2],
      [query_of sample_params 1, query_of sample_params 2], Running)"
    by code_simp
  have m1: "list_all more_pages [page_reply ''obra'' 1]" by code_simp
  have m2: "list_all more_pages [page_reply ''obra'' 1, page_reply ''ponte'' 3]" by code_simp
  have l: "remaining (page_reply ''ponte'' 0) = Some 0" by code_simp
  have p: "map (\<lambda>q. map_of q ''pagina'') [query_of sample_params 1, query_of sample_params 2] =
     [Some (PInt 1), Some (PInt 2)]"
    using pages_requested_in_order_until_none_remain[OF e1] by (simp add: upt_rec)
  have r: "Running = Running \<and> length [query_of sample_params 1, query_of sample_params 2] = 2"
    using pages_requested_in_order_until_none_remain[OF e2] m2 by simp
  from e1 e2 m1 m2 l p r show ?thesis by blast
qed

text \<open>
  Claim C5. When, after any number of good pages, a request fails in the HTTP layer
  (\<open>requests\<close> raises: timeout, DNS failure, status 4xx or 5xx) or its response has no
  \<open>data\<close> key, \<open>_fetch_page\<close> gives None and \<open>query_all_contracts\<close> returns None: not
  the pages accumulated so far, and no exception (the result is a returned value).
\<close>

theorem failed_page_aborts_with_None:
  assumes "query_all_contracts params h replies = (h', sent, res)"
    and "replies = pre @ r # post" and "list_all more_pages pre"
    and "(\<exists>e. r = Fails e) \<or> (\<exists>p. r = Answers p \<and> data p = None)"
  shows "fetch_page r = None \<and> res = Returned None \<and> length sent = length pre + 1"
proof -
  from assms(4) have f: "fetch_page r = None" unfolding fetch_page_None_iff by blast
  from assms(1,2) have "fetch_loop params h 1 [] (pre @ r # post) = (h', sent, res)"
    by (simp add: query_all_contracts_def)
  from fetch_loop_failed[OF assms(3) f this] f show ?thesis by simp
qed

text \<open>
  One good page followed by a response without \<open>data\<close>, and one good page followed by a
  request that raises: None both times.
\<close>

theorem failed_page_witness:
  "query_all_contracts 0 [sample_params] ([page_reply ''obra'' 1] @ no_data_reply # [page_reply ''ponte'' 0]) =
     ([sample_params, query_of sample_params 1, query_of sample_params 2],
      [query_of sample_params 1, query_of sample_params 2], Returned None) \<and>
   query_all_contracts 0 [sample_params] ([page_reply ''obra'' 1] @ Fails RequestException # []) =
     ([sample_params, query_of sample_params 1, query_of sample_params 2],
      [query_of sample_params 1, query_of sample_params 2], Returned None) \<and>
   list_all more_pages [page_reply ''obra'' 1] \<and> data \<lparr>data = None, paginasRestantes = None, totalPaginas = None\<rparr> = None \<and>
   fetch_page no_data_reply = None \<and> fetch_page (Fails RequestException) = None"
proof -
  have e1: "query_all_contracts 0 [sample_params] ([page_reply ''obra'' 1] @ no_data_reply # [page_reply ''ponte'' 0]) =
     ([sample_params, query_of sample_params 1, query_of sample_params 2],
      [query_of sample_params 1, query_of sample_params 2], Returned None)"
    by code_simp
  have e2: "query_all_contracts 0 [sample_params] ([page_reply ''obra'' 1] @ Fails RequestException # []) =
     ([sample_params, query_of sample_params 1, query_of sample_params 2],
      [query_of sample_params 1, query_of sample_params 2], Returned None)"
    by code_simp
  have m: "list_all more_pages [page_reply ''obra'' 1]" by code_simp
  have d: "(\<exists>e. no_data_reply = Fails e) \<or> (\<exists>p. no_data_reply = Answers p \<and> data p = None)"
    by (simp add: no_data_reply_def)
  have x: "(\<exists>e. Fails RequestException = Fails e) \<or> (\<exists>p. Fails RequestException = Answers p \<and> data p = None)"
    by simp
  from failed_page_aborts_with_None[OF e1 refl m d] failed_page_aborts_with_None[OF e2 refl m x] e1 e2 m
  show ?thesis by simp
qed

text \<open>
  Claim C10. \<open>query_all_contracts\<close> leaves the caller's dict as it was: the store after
  the call is the store before it followed by one new dict per request, and each of these
  is the content of \<open>params\<close> with \<open>pagina\<close> and \<open>tamanhoPagina\<close> set.
\<close>

theorem params_left_unchanged:
  assumes "params < length h" and "query_all_contracts params h replies = (h', sent, res)"
  shows "h' ! params = h ! params \<and> h' = h @ sent \<and>
         sent = map (\<lambda>i. query_of (h ! params) (1 + int i)) [0..<length sent]"
proof -
  from assms(2) have loop: "fetch_loop params h 1 [] replies = (h', sent, res)"
    by (simp add: query_all_contracts_def)
  have s: "h' = h @ sent" by (rule fetch_loop_store[OF loop])
  with assms(1) have "h' ! params = h ! params" by (simp add: nth_append)
  with s fetch_loop_queries[OF assms(1) loop] show ?thesis by blast
qed

text \<open>
  A run of two requests: the bag at address 0 still holds only \<open>dataFinal\<close>.
\<close>

theorem params_left_unchanged_witness:
  "(0::nat) < length [sample_params] \<and>
   query_all_contracts 0 [sample_params] [page_reply ''obra'' 1, page_reply ''ponte'' 0] =
     ([sample_params,
       [(''dataFinal'', PStr ''20400618''), (''pagina'', PInt 1), (''tamanhoPagina'', PInt 50)],
       [(''dataFinal'', PStr ''20400618''), (''pagina'', PInt 2), (''tamanhoPagina'', PInt 50)]],
      [[(''dataFinal'', PStr ''20400618''), (''pagina'', PInt 1), (''tamanhoPagina'', PInt 50)],
       [(''dataFinal'', PStr ''20400618''), (''pagina'', PInt 2), (''tamanhoPagina'', PInt 50)]],
      Returned (Some (concat_rows [page_of (page_reply ''obra'' 1), page_of (page_reply ''ponte'' 0)]))) \<and>
   [sample_params,
       [(''dataFinal'', PStr ''20400618''), (''pagina'', PInt 1), (''tamanhoPagina'', PInt 50)],
       [(''dataFinal'', PStr ''20400618''), (''pagina'', PInt 2), (''tamanhoPagina'', PInt 50)]] ! 0 = sample_params"
proof -
  have l: "(0::nat) < length [sample_params]" by simp
  have e: "query_all_contracts 0 [sample_params] [page_reply ''obra'' 1, page_reply ''ponte'' 0] =
     ([sample_params,
       [(''dataFinal'', PStr ''20400618''), (''pagina'', PInt 1), (''tamanhoPagina'', PInt 50)],
       [(''dataFinal'', PStr ''20400618''), (''pagina'', PInt 2), (''tamanhoPagina'', PInt 50)]],
      [[(''dataFinal'', PStr ''20400618''), (''pagina'', PInt 1), (''tamanhoPagina'', PInt 50)],
       [(''dataFinal'', PStr ''20400618''), (''pagina'', PInt 2), (''tamanhoPagina'', PInt 50)]],
      Returned (Some (concat_rows [page_of (page_reply ''obra'' 1), page_of (page_reply ''ponte'' 0)])))"
    by code_simp
  from params_left_unchanged[OF l e] l e show ?thesis by simp
qed

section \<open>The keyword filter\<close>

lemma parse_keywords_spec: "parse_keywords s = spec_tokens s"
proof (cases "s = []")
  case True
  then show ?thesis by (simp add: parse_keywords_def spec_tokens_def strip_def)
next
  case False
  have "map strip (filter (\<lambda>token. strip token \<noteq> []) ts) = filter (\<lambda>t. t \<noteq> []) (map strip ts)" for ts
    by (induction ts) auto
  with False show ?thesis by (simp add: parse_keywords_def spec_tokens_def)
qed

lemma special_not_alnum: "c \<in> set special_chars \<Longrightarrow> \<not> ascii_alnum c"
  by (auto simp: special_chars_def ascii_alnum_def)

lemma parser_special_escaped: "c \<in> set parser_special \<Longrightarrow> c \<in> set special_chars"
  by (auto simp: special_chars_def parser_special_def)

lemma backslash_special: "92 \<in> set special_chars" and bar_special: "124 \<in> set special_chars"
  by (simp_all add: special_chars_def)

lemma re_branches_literal:
  "c \<noteq> 92 \<Longrightarrow> c \<noteq> 124 \<Longrightarrow> c \<notin> set parser_special \<Longrightarrow>
   re_branches (c # rest) cur = re_branches rest (cur @ [c])"
  by (cases rest) simp_all

lemma re_branches_escaped:
  "\<not> ascii_alnum d \<Longrightarrow> re_branches (92 # d # rest) cur = re_branches rest (cur @ [d])"
  by simp

lemma re_branches_bar: "re_branches (124 # rest) cur = map_option (Cons cur) (re_branches rest [])"
  by (cases rest) simp_all

lemma re_branches_escape:
  "re_branches (re_escape t @ rest) cur = re_branches rest (cur @ t)"
proof (induction t arbitrary: cur)
  case Nil
  then show ?case by (simp add: re_escape_def)
next
  case (Cons c t)
  have e: "re_escape (c # t) = (if c \<in> set special_chars then [92, c] else [c]) @ re_escape t"
    by (simp add: re_escape_def)
  show ?case
  proof (cases "c \<in> set special_chars")
    case True
    then have "re_branches (re_escape (c # t) @ rest) cur = re_branches (re_escape t @ rest) (cur @ [c])"
      using special_not_alnum[OF True] by (simp add: e re_branches_escaped del: re_branches.simps)
    with Cons.IH[of "cur @ [c]"] show ?thesis by simp
  next
    case False
    then have "c \<noteq> 92" "c \<noteq> 124" "c \<notin> set parser_special"
      using backslash_special bar_special parser_special_escaped by auto
    then have "re_branches (re_escape (c # t) @ rest) cur = re_branches (re_escape t @ rest) (cur @ [c])"
      using False by (simp add: e re_branches_literal del: re_branches.simps)
    with Cons.IH[of "cur @ [c]"] show ?thesis by simp
  qed
qed

lemma re_branches_join:
  "re_branches (join [124] (map re_escape (t # ts))) cur = Some ((cur @ t) # ts)"
proof (induction ts arbitrary: t cur)
  case Nil
  have "re_branches (re_escape t @ []) cur = re_branches [] (cur @ t)" by (rule re_branches_escape)
  then show ?case by simp
next
  case (Cons u us)
  have "re_branches (join [124] (map re_escape (t # u # us))) cur =
        re_branches (re_escape t @ (124 # join [124] (map re_escape (u # us)))) cur"
    by simp
  also have "\<dots> = re_branches (124 # join [124] (map re_escape (u # us))) (cur @ t)"
    by (rule re_branches_escape)
  also have "\<dots> = map_option (Cons (cur @ t)) (re_branches (join [124] (map re_escape (u # us))) [])"
    by (rule re_branches_bar)
  also have "\<dots> = Some ((cur @ t) # u # us)" using Cons.IH[of u "[]"] by simp
  finally show ?case .
qed

lemma re_compile_escaped:
  "tokens \<noteq> [] \<Longrightarrow> re_compile (join [124] (map re_escape tokens)) = Some tokens"
proof (cases tokens)
  case Nil
  assume "tokens \<noteq> []"
  with Nil show ?thesis by simp
next
  case (Cons t ts)
  with re_branches_join[of t ts "[]"] show ?thesis by (simp add: re_compile_def)
qed

lemma match_here_iff:
  "match_here ci b s \<longleftrightarrow> (\<exists>mid after. s = mid @ after \<and> list_all2 ci b mid)"
proof (induction ci b s rule: match_here.induct)
  case (1 ci s)
  then show ?case by simp
next
  case (2 ci c cs)
  then show ?case by (simp add: list_all2_Cons1)
next
  case (3 ci c cs d ds)
  show ?case
  proof
    assume "match_here ci (c # cs) (d # ds)"
    with 3 obtain mid after where "ci c d" "ds = mid @ after" "list_all2 ci cs mid" by auto
    then have "d # ds = (d # mid) @ after \<and> list_all2 ci (c # cs) (d # mid)" by simp
    then show "\<exists>mid after. d # ds = mid @ after \<and> list_all2 ci (c # cs) mid" by blast
  next
    assume "\<exists>mid after. d # ds = mid @ after \<and> list_all2 ci (c # cs) mid"
    then obtain mid after where m: "d # ds = mid @ after" "list_all2 ci (c # cs) mid" by blast
    then obtain e mid' where "mid = e # mid'" "ci c e" "list_all2 ci cs mid'"
      by (auto simp: list_all2_Cons1)
    with m have "ci c d" "ds = mid' @ after" "list_all2 ci cs mid'" by auto
    with 3 show "match_here ci (c # cs) (d # ds)" by auto
  qed
qed

lemma re_search_iff:
  "re_search ci branches s \<longleftrightarrow> (\<exists>b\<in>set branches. contains_ci ci b s)"
proof (induction s)
  case Nil
  show ?case by (auto simp: list_ex_iff match_here_iff contains_ci_def)
next
  case (Cons d ds)
  have "contains_ci ci b (d # ds) \<longleftrightarrow> match_here ci b (d # ds) \<or> contains_ci ci b ds" for b
  proof
    assume "contains_ci ci b (d # ds)"
    then obtain before mid after where s: "d # ds = before @ mid @ after" and m: "list_all2 ci b mid"
      unfolding contains_ci_def by blast
    show "match_here ci b (d # ds) \<or> contains_ci ci b ds"
    proof (cases before)
      case Nil
      with s m show ?thesis by (auto simp: match_here_iff)
    next
      case (Cons e before')
      with s have "ds = before' @ mid @ after" by simp
      with m show ?thesis unfolding contains_ci_def by blast
    qed
  next
    assume "match_here ci b (d # ds) \<or> contains_ci ci b ds"
    then show "contains_ci ci b (d # ds)"
    proof
      assume "match_here ci b (d # ds)"
      then obtain mid after where "d # ds = [] @ mid @ after" "list_all2 ci b mid"
        by (auto simp: match_here_iff)
      then show ?thesis unfolding contains_ci_def by blast
    next
      assume "contains_ci ci b ds"
      then obtain before mid after where "ds = before @ mid @ after" "list_all2 ci b mid"
        unfolding contains_ci_def by blast
      then have "d # ds = (d # before) @ mid @ after \<and> list_all2 ci b mid" by simp
      then show ?thesis unfolding contains_ci_def by blast
    qed
  qed
  with Cons show ?case by (auto simp: list_ex_iff)
qed

lemma same_fold_iff: "list_all2 (ignorecase u) t mid \<longleftrightarrow> map (casefold u) t = map (casefold u) mid"
proof -
  have "list_all2 (ignorecase u) t mid = list_all2 (=) (map (casefold u) t) (map (casefold u) mid)"
    by (simp add: list_all2_map1 list_all2_map2 ignorecase_def[abs_def])
  then show ?thesis by (simp add: list.rel_eq)
qed

lemma contains_ci_ignorecase:
  "contains_ci (ignorecase u) token s \<longleftrightarrow> contains_ignoring_case u token s"
proof
  assume "contains_ci (ignorecase u) token s"
  then obtain before mid after where s: "s = before @ mid @ after"
    and m: "map (casefold u) token = map (casefold u) mid"
    unfolding contains_ci_def same_fold_iff by blast
  then have "map (casefold u) s = map (casefold u) before @ map (casefold u) token @ map (casefold u) after"
    by simp
  then show "contains_ignoring_case u token s"
    unfolding contains_ignoring_case_def sublist_def by blast
next
  assume "contains_ignoring_case u token s"
  then obtain ps ss where "map (casefold u) s = ps @ map (casefold u) token @ ss"
    unfolding contains_ignoring_case_def sublist_def by blast
  then obtain before rest where s1: "s = before @ rest"
    and r: "map (casefold u) token @ ss = map (casefold u) rest"
    unfolding map_eq_append_conv by blast
  from r obtain mid after where "rest = mid @ after" and "map (casefold u) token = map (casefold u) mid"
    unfolding append_eq_map_conv by blast
  with s1 have "s = before @ mid @ after \<and> list_all2 (ignorecase u) token mid"
    by (simp add: same_fold_iff)
  then show "contains_ci (ignorecase u) token s" unfolding contains_ci_def by blast
qed

lemma re_search_row_matches:
  "(case x of Text s \<Rightarrow> re_search (ignorecase u) tokens s | _ \<Rightarrow> False) = row_matches u tokens x"
  by (cases x) (simp_all add: row_matches_def re_search_iff contains_ci_ignorecase)

lemma str_accessor_texts:
  assumes "list_all (\<lambda>x. case x of NaN \<Rightarrow> True | Text s \<Rightarrow> True | _ \<Rightarrow> False) xs"
  shows "str_accessor xs = Inr xs"
proof -
  let ?vs = "filter (\<lambda>x. x \<noteq> NaN) xs"
  have t: "\<forall>x\<in>set ?vs. \<exists>s. x = Text s"
  proof
    fix x assume "x \<in> set ?vs"
    then have "x \<in> set xs" and n: "x \<noteq> NaN" by simp_all
    with assms have "case x of NaN \<Rightarrow> True | Text s \<Rightarrow> True | _ \<Rightarrow> False"
      by (simp add: list_all_iff)
    with n show "\<exists>s. x = Text s" by (cases x) simp_all
  qed
  have "?vs \<noteq> [] \<Longrightarrow> \<not> list_all is_number ?vs \<and> \<not> list_all is_boolean ?vs \<and> \<not> list_all is_timestamp ?vs"
  proof -
    assume "?vs \<noteq> []"
    then obtain v where v: "v \<in> set ?vs" by (cases ?vs) auto
    with t obtain s where "v = Text s" by blast
    with v show ?thesis
      by (auto simp: list_all_iff is_number_def is_boolean_def is_timestamp_def)
  qed
  then show ?thesis by (auto simp: str_accessor_def Let_def)
qed

lemma str_contains_escaped:
  assumes "tokens \<noteq> []"
    and "list_all (\<lambda>x. case x of NaN \<Rightarrow> True | Text s \<Rightarrow> True | _ \<Rightarrow> False) xs"
  shows "str_contains u (join [124] (map re_escape tokens)) xs = Inr (map (row_matches u tokens) xs)"
  by (simp add: str_contains_def str_accessor_texts[OF assms(2)] then_do_def
      re_compile_escaped[OF assms(1)] re_search_row_matches)

lemma upt_Suc_shift: "[0..<Suc n] = 0 # map Suc [0..<n]"
  by (simp add: upt_conv_Cons map_Suc_upt del: upt_Suc)

lemma boolean_mask_positions:
  "length m = length ys \<Longrightarrow>
   boolean_mask m ys = map (\<lambda>i. ys ! i) (filter (\<lambda>i. m ! i) [0..<length ys])"
proof (induction m ys rule: list_induct2)
  case Nil
  then show ?case by (simp add: boolean_mask_def)
next
  case (Cons b m y ys)
  have f: "filter (\<lambda>i. (b0 # m) ! i) (map Suc [0..<length ys]) = map Suc (filter (\<lambda>i. m ! i) [0..<length ys])"
    for b0 by (simp add: filter_map comp_def)
  have "map (\<lambda>i. (y # ys) ! i) (filter (\<lambda>i. (b0 # m) ! i) (map Suc [0..<length ys])) =
             map (\<lambda>i. ys ! i) (filter (\<lambda>i. m ! i) [0..<length ys])"
    for b0 by (simp add: f comp_def)
  with Cons.IH show ?case
    by (cases b) (simp_all add: boolean_mask_Cons upt_Suc_shift del: upt_Suc)
qed

lemma keep_rows_rows_at:
  assumes "well_formed df" and "length m = length (index df)"
  shows "keep_rows m df = rows_at (filter (\<lambda>i. m ! i) [0..<length (index df)]) df"
proof -
  have i: "boolean_mask m (index df) = map (\<lambda>i. index df ! i) (filter (\<lambda>i. m ! i) [0..<length (index df)])"
    using boolean_mask_positions[OF assms(2)] by simp
  have c: "map (\<lambda>p. (fst p, boolean_mask m (snd p))) (columns df) =
           map (\<lambda>p. (fst p, map (\<lambda>i. snd p ! i) (filter (\<lambda>i. m ! i) [0..<length (index df)]))) (columns df)"
  proof (rule map_cong[OF refl])
    fix p assume "p \<in> set (columns df)"
    with assms(1) have l: "length (snd p) = length (index df)"
      by (simp add: well_formed_def list_all_iff)
    with assms(2) have "length m = length (snd p)" by simp
    from boolean_mask_positions[OF this] l
    show "(fst p, boolean_mask m (snd p)) =
          (fst p, map (\<lambda>i. snd p ! i) (filter (\<lambda>i. m ! i) [0..<length (index df)]))" by simp
  qed
  from i c show ?thesis by (simp add: keep_rows_def rows_at_def)
qed

lemma split_not_Nil: "split sep s \<noteq> []"
  by (induction s) (auto split: list.splits)

lemma join_Cons_head: "join sep ((c # t) # ts) = c # join sep (t # ts)"
  by (cases ts) simp_all

lemma join_split: "join [sep] (split sep s) = s"
proof (induction s)
  case Nil
  then show ?case by simp
next
  case (Cons c cs)
  obtain t ts where ts: "split sep cs = t # ts"
    using split_not_Nil[of sep cs] by (cases "split sep cs") auto
  show ?case
  proof (cases "c = sep")
    case True
    with Cons ts show ?thesis by simp
  next
    case False
    with Cons ts show ?thesis by (simp add: join_Cons_head del: join.simps)
  qed
qed

lemma split_pieces: "t \<in> set (split sep s) \<Longrightarrow> sep \<notin> set t"
proof (induction s arbitrary: t)
  case Nil
  then show ?case by simp
next
  case (Cons c cs)
  obtain u us where us: "split sep cs = u # us"
    using split_not_Nil[of sep cs] by (cases "split sep cs") auto
  with Cons.IH have "sep \<notin> set u" "\<forall>v\<in>set us. sep \<notin> set v" by auto
  with Cons.prems us show ?case by (auto split: if_splits)
qed

lemma strip_trimmed: "trimmed s (strip s)"
proof -
  let ?r = "dropWhile is_space s"
  let ?a = "takeWhile is_space s"
  let ?b = "rev (takeWhile is_space (rev ?r))"
  have r: "?r = strip s @ ?b"
  proof -
    have "rev (takeWhile is_space (rev ?r) @ dropWhile is_space (rev ?r)) = rev (rev ?r)"
      by (simp only: takeWhile_dropWhile_id)
    then have "rev (dropWhile is_space (rev ?r)) @ rev (takeWhile is_space (rev ?r)) = ?r"
      by (simp only: rev_append rev_rev_ident)
    then show ?thesis by (simp only: strip_def)
  qed
  have "s = ?a @ ?r" by simp
  with r have s: "s = ?a @ strip s @ ?b" by simp
  have a: "list_all is_space ?a" by (auto simp: list_all_iff dest: set_takeWhileD)
  have b: "list_all is_space ?b" by (auto simp: list_all_iff dest: set_takeWhileD)
  have e: "strip s = [] \<or> (\<not> is_space (hd (strip s)) \<and> \<not> is_space (last (strip s)))"
  proof (cases "strip s = []")
    case True
    then show ?thesis by simp
  next
    case False
    then have d: "dropWhile is_space (rev ?r) \<noteq> []" by (simp add: strip_def)
    have "last (strip s) = hd (dropWhile is_space (rev ?r))"
      using d by (simp add: strip_def last_rev)
    with hd_dropWhile[OF d] have l: "\<not> is_space (last (strip s))" by simp
    have rn: "?r \<noteq> []"
    proof
      assume "?r = []"
      with r have "strip s @ ?b = []" by (simp only:)
      with False show False by simp
    qed
    from False r have "hd (strip s) = hd ?r" by (metis hd_append2)
    with hd_dropWhile[OF rn] have "\<not> is_space (hd (strip s))" by simp
    with l show ?thesis by simp
  qed
  from s a b e show ?thesis unfolding trimmed_def by blast
qed

lemma ignorecase_letters: "upper_case c \<Longrightarrow> ignorecase u c (c + 32)"
  by (auto simp: upper_case_def ignorecase_def casefold_def ascii_lower_def)

lemma ignorecase_ascii:
  "c < 128 \<Longrightarrow> d < 128 \<Longrightarrow>
   ignorecase u c d \<longleftrightarrow> c = d \<or> (upper_case c \<and> d = c + 32) \<or> (upper_case d \<and> c = d + 32)"
  by (auto simp: upper_case_def ignorecase_def casefold_def ascii_lower_def)

text \<open>
  Claim C6. On a well-formed table with one description column whose cells are texts or
  missing, the keyword filter of \<open>main_interface\<close> (the tokens of \<open>parse_keywords\<close>,
  escaped, joined with \<open>|\<close>, compiled and searched under \<open>re.IGNORECASE\<close>, the rows
  selected by the mask) returns the table the specification describes: exactly the rows
  whose description is a text that contains one of the tokens without regard to case, in
  their order and with their cells, a row without description never, and the whole table
  when no token remains. The pieces between semicolons are what joining them with
  semicolons gives the input back from, none holds a semicolon, and each is trimmed of
  the whitespace at its two ends; two ASCII characters match without regard to case
  exactly when they are equal or one is the upper-case letter of the other.
\<close>

theorem keyword_filter_meets_spec:
  "(well_formed df \<and> has_descriptions df \<longrightarrow>
      keyword_filter u keyword df = Inr (keyword_filter_spec u keyword df)) \<and>
   join [semicolon] (split semicolon keyword) = keyword \<and>
   (\<forall>piece\<in>set (split semicolon keyword). semicolon \<notin> set piece \<and> trimmed piece (strip piece)) \<and>
   (\<forall>c d. c < 128 \<and> d < 128 \<longrightarrow>
      ignorecase u c d = (c = d \<or> (upper_case c \<and> d = c + 32) \<or> (upper_case d \<and> c = d + 32)))"
proof (intro conjI impI ballI allI)
  show "join [semicolon] (split semicolon keyword) = keyword" by (rule join_split)
next
  fix piece assume "piece \<in> set (split semicolon keyword)"
  then show "semicolon \<notin> set piece" by (rule split_pieces)
next
  fix piece show "trimmed piece (strip piece)" by (rule strip_trimmed)
next
  fix c d :: nat assume "c < 128 \<and> d < 128"
  then show "ignorecase u c d = (c = d \<or> (upper_case c \<and> d = c + 32) \<or> (upper_case d \<and> c = d + 32))"
    using ignorecase_ascii by blast
next
  assume h: "well_formed df \<and> has_descriptions df"
  show "keyword_filter u keyword df = Inr (keyword_filter_spec u keyword df)"
  proof (cases "spec_tokens keyword = []")
    case True
    then show ?thesis by (simp add: keyword_filter_def keyword_filter_spec_def parse_keywords_spec)
  next
    case False
    from h have once: "count_list (labels df) ''objetoCompra'' = 1"
      by (simp add: has_descriptions_def)
    then obtain xs where g: "getitem df ''objetoCompra'' = Inr xs" using getitem_once by blast
    then have c: "col df ''objetoCompra'' = Some xs" by (rule getitem_Inr_col)
    then have d: "descriptions df = xs" by (simp add: descriptions_def)
    with h have t: "list_all (\<lambda>x. case x of NaN \<Rightarrow> True | Text s \<Rightarrow> True | _ \<Rightarrow> False) xs"
      by (simp add: has_descriptions_def)
    from h g have lx: "length xs = length (index df)"
      by (auto dest!: getitem_in_columns dest: well_formed_length)
    let ?m = "map (row_matches u (spec_tokens keyword)) xs"
    have k: "keyword_filter u keyword df = Inr (keep_rows ?m df)"
      using False g by (simp add: keyword_filter_def parse_keywords_spec Let_def then_do_def
          str_contains_escaped[OF False t])
    have "keep_rows ?m df = rows_at (filter (\<lambda>i. ?m ! i) [0..<length (index df)]) df"
      using h lx by (intro keep_rows_rows_at) simp_all
    also have "filter (\<lambda>i. ?m ! i) [0..<length (index df)] =
               filter (\<lambda>i. row_matches u (spec_tokens keyword) (descriptions df ! i)) [0..<length (index df)]"
      using lx d by (intro filter_cong refl) simp
    finally show ?thesis using k False by (simp add: keyword_filter_spec_def)
  qed
qed

text \<open>Evaluation of the filter on literal texts.\<close>

lemma utf_simps: "utf [] = []" "utf (c # cs) = of_char c # utf cs"
  by (simp_all add: utf_def)

lemmas keyword_eval =
  utf_simps keyword_filter_def parse_keywords_def semicolon_def strip_def is_space_def
  re_escape_def special_chars_def Let_def str_contains_def str_accessor_def is_number_def
  is_boolean_def is_timestamp_def re_compile_def parser_special_def ascii_alnum_def
  ignorecase_def casefold_def ascii_lower_def sample_fold_def getitem_def
  sample_descriptions_def DataFrame_def keep_rows_def boolean_mask_def then_do_def

text \<open>
  The examples of the specification on a table of three rows, the results written out:
  \<open>medicamento; insumo\<close> finds the first row whatever the case; parentheses and \<open>.*\<close>
  are taken literally; the empty input and an input of semicolons and blanks keep every
  row.
\<close>

theorem keyword_filter_witness:
  "well_formed sample_descriptions \<and> has_descriptions sample_descriptions \<and>
   keyword_filter sample_fold (utf ''medicamento; insumo'') sample_descriptions =
     Inr \<lparr>index = [0],
          columns = [(''objetoCompra'', [Text (utf ''Medicamento hospitalar'')]), (''valor'', [Num 10])]\<rparr> \<and>
   keyword_filter_spec sample_fold (utf ''medicamento; insumo'') sample_descriptions =
     \<lparr>index = [0],
      columns = [(''objetoCompra'', [Text (utf ''Medicamento hospitalar'')]), (''valor'', [Num 10])]\<rparr> \<and>
   keyword_filter_spec sample_fold (utf ''(PONTE) ;'') sample_descriptions =
     \<lparr>index = [2],
      columns = [(''objetoCompra'', [Text (utf ''obra (ponte)'')]), (''valor'', [Num 30])]\<rparr> \<and>
   keyword_filter_spec sample_fold (utf ''.*'') sample_descriptions =
     \<lparr>index = [], columns = [(''objetoCompra'', []), (''valor'', [])]\<rparr> \<and>
   keyword_filter_spec sample_fold (utf '''') sample_descriptions = sample_descriptions \<and>
   keyword_filter_spec sample_fold (utf '' ; ;; '') sample_descriptions = sample_descriptions \<and>
   spec_tokens (utf '' medicamento ; insumo;'') = [utf ''medicamento'', utf ''insumo'']"
proof -
  have w: "well_formed sample_descriptions" by code_simp
  have h: "has_descriptions sample_descriptions" by code_simp
  have 1: "keyword_filter sample_fold (utf ''medicamento; insumo'') sample_descriptions =
     Inr \<lparr>index = [0],
          columns = [(''objetoCompra'', [Text (utf ''Medicamento hospitalar'')]), (''valor'', [Num 10])]\<rparr>"
    by (simp add: keyword_eval)
  have 2: "keyword_filter sample_fold (utf ''(PONTE) ;'') sample_descriptions =
     Inr \<lparr>index = [2],
          columns = [(''objetoCompra'', [Text (utf ''obra (ponte)'')]), (''valor'', [Num 30])]\<rparr>"
    by (simp add: keyword_eval)
  have 3: "keyword_filter sample_fold (utf ''.*'') sample_descriptions =
     Inr \<lparr>index = [], columns = [(''objetoCompra'', []), (''valor'', [])]\<rparr>"
    by (simp add: keyword_eval)
  have 4: "keyword_filter sample_fold (utf '''') sample_descriptions = Inr sample_descriptions"
    by (simp add: keyword_eval)
  have 5: "keyword_filter sample_fold (utf '' ; ;; '') sample_descriptions = Inr sample_descriptions"
    by (simp add: keyword_eval)
  have 6: "spec_tokens (utf '' medicamento ; insumo;'') = [utf ''medicamento'', utf ''insumo'']"
    by (simp add: utf_simps spec_tokens_def semicolon_def strip_def is_space_def)
  have s: "keyword_filter sample_fold k sample_descriptions =
           Inr (keyword_filter_spec sample_fold k sample_descriptions)" for k
    using keyword_filter_meets_spec[of sample_descriptions sample_fold k] w h by blast
  from w h 1 2 3 4 5 6 s[of "utf ''medicamento; insumo''"] s[of "utf ''(PONTE) ;''"]
    s[of "utf ''.*''"] s[of "utf ''''"] s[of "utf '' ; ;; ''"]
  show ?thesis by simp
qed

text \<open>
  A description column that holds a number and nothing else is refused by the accessor.
\<close>

lemma numbers_for_descriptions_are_refused:
  "keyword_filter sample_fold (utf ''obra'')
     \<lparr>index = [0, 1], columns = [(''objetoCompra'', [Num 5, NaN])]\<rparr> = Inl AttributeError"
  by (simp add: keyword_eval)

text \<open>The Kelvin sign followed by ELVIN contains the token kelvin.\<close>

lemma case_is_disregarded:
  "row_matches sample_fold [utf ''kelvin''] (Text [8490, 69, 76, 86, 73, 78])"
proof -
  have "map (casefold sample_fold) (utf ''kelvin'') = map (casefold sample_fold) [8490, 69, 76, 86, 73, 78]"
    by (simp add: utf_simps casefold_def ascii_lower_def sample_fold_def)
  then show ?thesis by (simp add: row_matches_def contains_ignoring_case_def)
qed

section \<open>Column projection\<close>

lemma filter_label_single:
  "distinct (map fst ps) \<Longrightarrow> c \<in> set (map fst ps) \<Longrightarrow>
   filter (\<lambda>p. fst p = c) ps = [(c, the (map_of ps c))]"
proof (induction ps)
  case Nil
  then show ?case by simp
next
  case (Cons p ps)
  show ?case
  proof (cases "fst p = c")
    case True
    with Cons.prems have "c \<notin> fst ` set ps" by auto
    then have "filter (\<lambda>p. fst p = c) ps = []" by (auto simp: filter_empty_conv)
    with True show ?thesis by (cases p) auto
  next
    case False
    with Cons show ?thesis by (cases p) auto
  qed
qed

lemma select_columns_distinct:
  assumes "distinct (labels df)" and "set names \<subseteq> set (labels df)"
  shows "columns (select_columns names df) = map (\<lambda>c. (c, the (col df c))) names"
proof -
  have "concat (map (\<lambda>c. filter (\<lambda>p. fst p = c) (columns df)) names) =
        concat (map (\<lambda>c. [(c, the (map_of (columns df) c))]) names)"
    using assms by (intro arg_cong[where f = concat] map_cong refl filter_label_single)
      (auto simp: labels_def)
  also have "\<dots> = map (\<lambda>c. (c, the (map_of (columns df) c))) names"
    by (induction names) auto
  finally show ?thesis by (simp add: select_columns_def col_def)
qed

lemma columns_by_label:
  "distinct (map fst ps) \<Longrightarrow> map (\<lambda>c. (c, the (map_of ps c))) (map fst ps) = ps"
proof (induction ps)
  case Nil
  then show ?case by simp
next
  case (Cons p ps)
  obtain c xs where p: "p = (c, xs)" by (cases p)
  with Cons.prems have nc: "c \<notin> fst ` set ps" and d: "distinct (map fst ps)" by auto
  have "map (\<lambda>c'. (c', the (map_of (p # ps) c'))) (map fst ps) =
        map (\<lambda>c'. (c', the (map_of ps c'))) (map fst ps)"
    using nc by (intro map_cong refl) (auto simp: p)
  also have "\<dots> = ps" by (rule Cons.IH[OF d])
  finally show ?case by (simp add: p)
qed

lemma map_of_tabulated: "c \<in> set names \<Longrightarrow> map_of (map (\<lambda>c. (c, f c)) names) c = Some (f c)"
  by (induction names) auto

text \<open>
  Claim C8. On a table whose column labels are distinct, the displayed table has the
  requested labels that are labels of the table, in the requested order, each with its
  column, and the same rows; when none is requested or none of the requested ones
  exists, it is the whole table.
\<close>

theorem project_gives_requested_columns:
  assumes "distinct (labels df)"
  shows "labels (project selected df) =
           (if list_ex (\<lambda>c. c \<in> set (labels df)) selected
            then filter (\<lambda>c. c \<in> set (labels df)) selected else labels df) \<and>
         index (project selected df) = index df \<and>
         (\<forall>c\<in>set (labels (project selected df)). col (project selected df) c = col df c) \<and>
         (\<not> list_ex (\<lambda>c. c \<in> set (labels df)) selected \<longrightarrow> project selected df = df)"
proof -
  let ?names = "display_columns selected df"
  have sub: "set ?names \<subseteq> set (labels df)" by (auto simp: display_columns_def Let_def)
  have cols: "columns (project selected df) = map (\<lambda>c. (c, the (col df c))) ?names"
    unfolding project_def by (rule select_columns_distinct[OF assms sub])
  have names: "?names = (if list_ex (\<lambda>c. c \<in> set (labels df)) selected
            then filter (\<lambda>c. c \<in> set (labels df)) selected else labels df)"
    by (auto simp: display_columns_def Let_def list_ex_iff filter_empty_conv)
  have 1: "labels (project selected df) = ?names" by (simp add: labels_def cols comp_def)
  have 2: "index (project selected df) = index df" by (simp add: project_def select_columns_def)
  have 3: "\<forall>c\<in>set (labels (project selected df)). col (project selected df) c = col df c"
  proof
    fix c assume "c \<in> set (labels (project selected df))"
    with 1 have c: "c \<in> set ?names" by simp
    with sub have "c \<in> set (labels df)" by blast
    then obtain xs where xs: "col df c = Some xs"
      by (auto simp: col_def labels_def dest!: weak_map_of_SomeI)
    have "map_of (map (\<lambda>c. (c, the (col df c))) ?names) c = Some (the (col df c))"
      using c by (rule map_of_tabulated)
    with xs show "col (project selected df) c = col df c" by (simp add: col_def cols)
  qed
  have 4: "\<not> list_ex (\<lambda>c. c \<in> set (labels df)) selected \<longrightarrow> project selected df = df"
  proof
    assume "\<not> list_ex (\<lambda>c. c \<in> set (labels df)) selected"
    with names have "?names = labels df" by simp
    with cols have "columns (project selected df) = columns df"
      using columns_by_label[of "columns df"] assms by (simp add: labels_def col_def)
    with 2 show "project selected df = df" by (simp add: project_def select_columns_def)
  qed
  from 1 2 3 4 names show ?thesis by simp
qed

text \<open>
  On the clean sample: an unknown name is skipped, the order is the requested one, and a
  selection of unknown names only, or an empty one, shows everything.
\<close>

theorem project_witness:
  "distinct (labels two_notices_clean) \<and>
   labels (project [''valor'', ''naoExiste'', ''objetoCompra''] two_notices_clean) = [''valor'', ''objetoCompra''] \<and>
   project [''naoExiste''] two_notices_clean = two_notices_clean \<and>
   project [] two_notices_clean = two_notices_clean \<and>
   project [''valor'', ''naoExiste'', ''objetoCompra''] two_notices_clean =
     \<lparr>index = [0, 1],
      columns = [(''valor'', [Num 100, Num 100]),
                 (''objetoCompra'', [Text (utf ''obra''), Text (utf ''obra'')])]\<rparr>"
proof -
  have d: "distinct (labels two_notices_clean)" by code_simp
  have a: "list_ex (\<lambda>c. c \<in> set (labels two_notices_clean)) [''valor'', ''naoExiste'', ''objetoCompra'']"
    by code_simp
  have f: "filter (\<lambda>c. c \<in> set (labels two_notices_clean)) [''valor'', ''naoExiste'', ''objetoCompra''] =
        [''valor'', ''objetoCompra'']" by code_simp
  have b: "\<not> list_ex (\<lambda>c. c \<in> set (labels two_notices_clean)) [''naoExiste'']" by code_simp
  have e: "project [''valor'', ''naoExiste'', ''objetoCompra''] two_notices_clean =
     \<lparr>index = [0, 1],
      columns = [(''valor'', [Num 100, Num 100]),
                 (''objetoCompra'', [Text (utf ''obra''), Text (utf ''obra'')])]\<rparr>" by code_simp
  have 1: "labels (project [''valor'', ''naoExiste'', ''objetoCompra''] two_notices_clean) =
      [''valor'', ''objetoCompra'']"
    using project_gives_requested_columns[OF d, of "[''valor'', ''naoExiste'', ''objetoCompra'']"] a f
    by presburger
  have 2: "project [''naoExiste''] two_notices_clean = two_notices_clean"
    using project_gives_requested_columns[OF d, of "[''naoExiste'']"] b by blast
  have 3: "project [] two_notices_clean = two_notices_clean"
    using project_gives_requested_columns[OF d, of "[]"] by simp
  from d 1 2 3 e show ?thesis by blast
qed

section \<open>to_excel\<close>

lemma in_class_illegal: "in_class illegal_char_re c \<longleftrightarrow> c \<in> control_chars"
  by (auto simp: in_class_def illegal_char_re_def control_chars_def)

lemma re_sub_empty_filter: "re_sub_empty ranges s = filter (\<lambda>c. \<not> in_class ranges c) s"
  by (induction s) auto

lemma clean_value_spec: "clean_value x = spec_clean x"
  by (cases x) (simp_all add: clean_value_def spec_clean_def re_sub_empty_filter in_class_illegal)

lemma labels_applymap: "labels (applymap f df) = labels df"
  by (simp add: applymap_def labels_def comp_def)

text \<open>
  Claim C9. \<open>to_excel\<close> writes one sheet, named \<open>Biddings\<close>, with the column labels as
  header and without a column of row labels, one row per row of the table; in it every
  text cell has lost exactly the characters 0x00-0x08, 0x0B, 0x0C and 0x0E-0x1F, and every
  other cell is as it was.
\<close>

theorem to_excel_strips_control_characters:
  "\<exists>sh. to_excel df = [sh] \<and> sheet_name sh = ''Biddings'' \<and> header sh = labels df \<and>
        index_column sh = None \<and> length (cell_rows sh) = length (index df) \<and>
        (well_formed df \<longrightarrow>
           cell_rows sh = map (\<lambda>i. map (\<lambda>p. spec_clean (snd p ! i)) (columns df)) [0..<length (index df)])"
proof -
  let ?sh = "write_sheet False ''Biddings'' (applymap clean_value df)"
  have 1: "to_excel df = [?sh]" by (simp add: to_excel_def)
  have 2: "sheet_name ?sh = ''Biddings''" "index_column ?sh = None" by (simp_all add: write_sheet_def)
  have 3: "header ?sh = labels df" by (simp add: write_sheet_def labels_applymap)
  have 4: "length (cell_rows ?sh) = length (index df)" by (simp add: write_sheet_def applymap_def)
  have 5: "well_formed df \<longrightarrow>
      cell_rows ?sh = map (\<lambda>i. map (\<lambda>p. spec_clean (snd p ! i)) (columns df)) [0..<length (index df)]"
    by (auto simp: write_sheet_def applymap_def well_formed_def list_all_iff clean_value_spec)
  from 1 2 3 4 5 show ?thesis by blast
qed

text \<open>
  The sample table: vertical tab, NUL and 0x1F go, tab, newline and return stay, as do
  the number and the missing value.
\<close>

theorem to_excel_witness:
  "well_formed sample_table \<and>
   to_excel sample_table =
     [\<lparr>sheet_name = ''Biddings'', header = [''objetoCompra'', ''valor''], index_column = None,
       cell_rows = [[Text [111, 98, 114, 97, 9, 10, 13], Num 10], [NaN, Num 20]]\<rparr>] \<and>
   map (\<lambda>i. map (\<lambda>p. spec_clean (snd p ! i)) (columns sample_table)) [0..<length (index sample_table)] =
     [[Text [111, 98, 114, 97, 9, 10, 13], Num 10], [NaN, Num 20]]"
proof -
  have w: "well_formed sample_table" by code_simp
  have e: "to_excel sample_table =
     [\<lparr>sheet_name = ''Biddings'', header = [''objetoCompra'', ''valor''], index_column = None,
       cell_rows = [[Text [111, 98, 114, 97, 9, 10, 13], Num 10], [NaN, Num 20]]\<rparr>]" by code_simp
  from to_excel_strips_control_characters[of sample_table] w e show ?thesis by auto
qed

end
